theory Spec2Isabelle
  imports Complex_Main "HOL-Library.Word" "HOL-Library.Log_Nat" "HOL-Library.Code_Target_Numeral"
begin

unbundle bit_operations_syntax

section \<open>Conventions of the embedding\<close>

text \<open>
  The theory embeds the two C sources of the text backend: \<^verbatim>\<open>hex_to_color\<close>
  (the colour utility) and \<^verbatim>\<open>entry_backend/harfbuzz.c\<close> (font initialisation and the
  per-frame \<^verbatim>\<open>update\<close>).

  \<^item> A C string is the \<open>string\<close> of its bytes before the terminating NUL.
  \<^item> \<^verbatim>\<open>float\<close> and \<^verbatim>\<open>double\<close> values are \<open>real\<close>: every double is a real number, and
    the sums inside Cairo, the sums of extents and the division by 255 are exact. The sum
    that \<^verbatim>\<open>size_overflows\<close> compares with the clip boundary decides a branch of the
    program; it is rounded as a binary64 addition rounds it (\<open>round_double\<close>).
  \<^item> \<^verbatim>\<open>uint32_t\<close> is \<open>32 word\<close>; \<^verbatim>\<open>size_t\<close> counters that only count up to
    a bound held in the state are \<open>nat\<close>.
  \<^item> FreeType, HarfBuzz, Cairo and libc are outside the repository; what their calls
    return is a parameter of the model (the records \<open>ft_env\<close> and \<open>shaper\<close>), except
    \<^verbatim>\<open>strtol\<close> and \<^verbatim>\<open>strtok_r\<close>, which are written out after the C standard.
\<close>

section \<open>Colour utility: \<^verbatim>\<open>hex_to_color\<close>\<close>

record color =
  color_r :: real
  color_g :: real
  color_b :: real
  color_a :: real

text \<open>\<^verbatim>\<open>isspace\<close> in the C locale: space, \<^verbatim>\<open>\t \n \v \f \r\<close>.\<close>

definition isspace :: "char \<Rightarrow> bool" where
  "isspace c = (let n = (of_char c :: nat) in n = 32 \<or> (9 \<le> n \<and> n \<le> 13))"

text \<open>The value of a base-16 digit, in either case; \<open>None\<close> for any other byte.\<close>

definition hex_digit :: "char \<Rightarrow> nat option" where
  "hex_digit c =
     (let n = (of_char c :: nat) in
      if 48 \<le> n \<and> n \<le> 57 then Some (n - 48)
      else if 97 \<le> n \<and> n \<le> 102 then Some (n - 87)
      else if 65 \<le> n \<and> n \<le> 70 then Some (n - 55)
      else None)"

text \<open>The digit loop of \<^verbatim>\<open>strtol\<close>: accumulate until the first byte that is no digit.\<close>

fun strtol_digits :: "nat \<Rightarrow> string \<Rightarrow> nat" where
  "strtol_digits acc [] = acc"
| "strtol_digits acc (c # cs) =
     (case hex_digit c of
        None \<Rightarrow> acc
      | Some d \<Rightarrow> strtol_digits (16 * acc + d) cs)"

text \<open>An optional \<^verbatim>\<open>0x\<close> or \<^verbatim>\<open>0X\<close> may precede the digits in base 16. When no digit
  follows it, the subject sequence is the lone \<^verbatim>\<open>0\<close>, whose value is 0 as well.\<close>

fun strtol_prefix :: "string \<Rightarrow> string" where
  "strtol_prefix (c0 # cx # cs) =
     (if c0 = CHR ''0'' \<and> (cx = CHR ''x'' \<or> cx = CHR ''X'') then cs else c0 # cx # cs)"
| "strtol_prefix cs = cs"

fun strtol_sign :: "string \<Rightarrow> bool \<times> string" where
  "strtol_sign (c # cs) =
     (if c = CHR ''-'' then (True, cs) else if c = CHR ''+'' then (False, cs) else (False, c # cs))"
| "strtol_sign [] = (False, [])"

text \<open>\<^verbatim>\<open>strtol(s, NULL, 16)\<close> with a 64-bit \<^verbatim>\<open>long\<close>: leading white space, an optional
  sign, the optional prefix, the digits; a value out of range is clamped to
  \<^verbatim>\<open>LONG_MIN\<close> or \<^verbatim>\<open>LONG_MAX\<close>.\<close>

definition strtol16 :: "string \<Rightarrow> int" where
  "strtol16 s =
     (let (neg, rest) = strtol_sign (dropWhile isspace s);
          m = int (strtol_digits 0 (strtol_prefix rest))
      in if neg then max (- (2 ^ 63)) (- m) else min (2 ^ 63 - 1) m)"

text \<open>The conversion of the \<^verbatim>\<open>long\<close> to \<^verbatim>\<open>uint32_t val\<close> keeps the low 32 bits.\<close>

definition long_to_uint32 :: "int \<Rightarrow> 32 word" where
  "long_to_uint32 i = word_of_int i"

definition channels :: "32 word \<Rightarrow> color" where
  "channels val =
     \<lparr> color_r = real (unat (drop_bit 24 (val AND 0xFF000000))) / 255,
       color_g = real (unat (drop_bit 16 (val AND 0x00FF0000))) / 255,
       color_b = real (unat (drop_bit 8 (val AND 0x0000FF00))) / 255,
       color_a = real (unat (drop_bit 0 (val AND 0x000000FF))) / 255 \<rparr>"

definition invalid_color :: color where
  "invalid_color = \<lparr> color_r = - 1, color_g = - 1, color_b = - 1, color_a = - 1 \<rparr>"

definition skip_hash :: "string \<Rightarrow> string" where
  "skip_hash hex = (case hex of c # cs \<Rightarrow> if c = CHR ''#'' then cs else hex | [] \<Rightarrow> hex)"

definition hex_to_color :: "string \<Rightarrow> color" where
  "hex_to_color hex0 =
     (let hex = skip_hash hex0;
          len = length hex
      in if len = 3 then
           channels (push_bit 8 (long_to_uint32 (strtol16
             [hex ! 0, hex ! 0, hex ! 1, hex ! 1, hex ! 2, hex ! 2])) OR 0xFF)
         else if len = 4 then
           channels (long_to_uint32 (strtol16
             [hex ! 0, hex ! 0, hex ! 1, hex ! 1, hex ! 2, hex ! 2, hex ! 3, hex ! 3]))
         else if len = 6 then
           channels (push_bit 8 (long_to_uint32 (strtol16 hex)) OR 0xFF)
         else if len = 8 then
           channels (long_to_uint32 (strtol16 hex))
         else invalid_color)"

text \<open>The colour the specification describes, to compare \<open>hex_to_color\<close> with: bytes
  normalised by 255, a digit duplicated being 17 times its value.\<close>

definition rgba :: "nat \<Rightarrow> nat \<Rightarrow> nat \<Rightarrow> nat \<Rightarrow> color" where
  "rgba r g b a =
     \<lparr> color_r = real r / 255, color_g = real g / 255,
       color_b = real b / 255, color_a = real a / 255 \<rparr>"

definition digit :: "char \<Rightarrow> nat" where
  "digit c = (case hex_digit c of Some d \<Rightarrow> d | None \<Rightarrow> 0)"

definition parse_color :: "string \<Rightarrow> color" where
  "parse_color s =
     (case map digit (if take 1 s = ''#'' then drop 1 s else s) of
        [r, g, b] \<Rightarrow> rgba (17 * r) (17 * g) (17 * b) 255
      | [r, g, b, a] \<Rightarrow> rgba (17 * r) (17 * g) (17 * b) (17 * a)
      | [r1, r0, g1, g0, b1, b0] \<Rightarrow> rgba (16 * r1 + r0) (16 * g1 + g0) (16 * b1 + b0) 255
      | [r1, r0, g1, g0, b1, b0, a1, a0] \<Rightarrow>
          rgba (16 * r1 + r0) (16 * g1 + g0) (16 * b1 + b0) (16 * a1 + a0)
      | _ \<Rightarrow> invalid_color)"


section \<open>Font initialisation: \<^verbatim>\<open>entry_backend_harfbuzz_init\<close>\<close>

subsection \<open>The libraries, as parameters\<close>

text \<open>
  What FreeType and HarfBuzz answer is not decided by the repository. \<open>ft_env\<close> holds the
  error code of each FreeType call of \<^verbatim>\<open>init\<close> (0 is success), the table
  \<^verbatim>\<open>ft_errors\<close> that \<^verbatim>\<open><freetype/fterrors.h>\<close> expands to, and the two HarfBuzz
  parsers: each returns its \<^verbatim>\<open>hb_bool_t\<close> and the value it stores through the pointer
  it was given.
\<close>

record ('v, 'f) ft_env =
  FT_Init_FreeType :: int
  FT_New_Face :: "string \<Rightarrow> int"
  FT_Set_Char_Size :: "32 word \<Rightarrow> int"
  ft_errors :: "(int \<times> string) list"
  hb_variation_from_string :: "string \<Rightarrow> bool \<times> 'v"
  hb_feature_from_string :: "string \<Rightarrow> bool \<times> 'f"

text \<open>\<^verbatim>\<open>log_error\<close> and \<^verbatim>\<open>log_debug\<close> append to the log; the message is the formatted
  string.\<close>

datatype log_entry = Log_Error string | Log_Debug string

text \<open>Why \<^verbatim>\<open>init\<close> does not return: \<^verbatim>\<open>exit(EXIT_FAILURE)\<close> with the log written so
  far, or a write outside an array.\<close>

datatype stop = Exit_Failure "log_entry list" | Out_Of_Bounds

text \<open>Modelled from the spec: \<^verbatim>\<open>struct entry_backend_harfbuzz\<close> is declared in
  \<^verbatim>\<open>harfbuzz.h\<close>, which is not among the sources. The two arrays are lists whose length
  is their capacity \<^verbatim>\<open>N_ELEM\<close>; the counters say how many slots are filled.\<close>

record ('v, 'f) entry_backend_harfbuzz =
  hb_variations :: "'v list"
  num_variations :: nat
  hb_features :: "'f list"
  num_features :: nat

fun get_ft_error_string :: "(int \<times> string) list \<Rightarrow> int \<Rightarrow> string" where
  "get_ft_error_string [] err_code = ''Unknown FT error''"
| "get_ft_error_string ((code, msg) # rest) err_code =
     (if code = err_code then msg else get_ft_error_string rest err_code)"

subsection \<open>\<^verbatim>\<open>strtok_r\<close>\<close>

text \<open>\<^verbatim>\<open>strtok_r(str, delim, &saveptr)\<close> on what is left of the input: skip the leading
  delimiters; nothing left gives \<^verbatim>\<open>NULL\<close>; otherwise the token runs to the next
  delimiter, and the rest after that delimiter is what the next call sees.\<close>

definition strtok_r :: "char \<Rightarrow> string \<Rightarrow> (string \<times> string) option" where
  "strtok_r delim s =
     (let s' = dropWhile (\<lambda>c. c = delim) s
      in if s' = [] then None
         else Some (takeWhile (\<lambda>c. c \<noteq> delim) s', drop 1 (dropWhile (\<lambda>c. c \<noteq> delim) s')))"

subsection \<open>The two token loops\<close>

text \<open>A write to slot \<open>k\<close> of an array of fixed capacity.\<close>

definition array_write :: "'a list \<Rightarrow> nat \<Rightarrow> 'a \<Rightarrow> 'a list option" where
  "array_write xs k v = (if k < length xs then Some (xs[k := v]) else None)"

text \<open>
  The loops over the variations and over the features have the same shape:
  \<^verbatim>\<open>while (tok != NULL && num < N_ELEM(arr)) { if (parse(tok, -1, &arr[num])) num++;
  else log_error(...); tok = strtok_r(NULL, ",", &saveptr); }\<close>.
  \<open>tok\<close> is the pending token with the rest of the input, \<open>(arr, num, lg)\<close> the array,
  its counter and the log. The parser stores through \<^verbatim>\<open>&arr[num]\<close> whether it succeeds
  or not.
\<close>

function token_loop ::
  "(string \<Rightarrow> bool \<times> 'a) \<Rightarrow> (string \<Rightarrow> string) \<Rightarrow> (string \<times> string) option
    \<Rightarrow> 'a list \<times> nat \<times> log_entry list \<Rightarrow> ('a list \<times> nat \<times> log_entry list) option" where
  "token_loop parse msg None st = Some st"
| "token_loop parse msg (Some (tok, saveptr)) (arr, num, lg) =
     (if num < length arr then
        (let (ok, v) = parse tok
         in case array_write arr num v of
              None \<Rightarrow> None
            | Some arr' \<Rightarrow>
                token_loop parse msg (strtok_r CHR '','' saveptr)
                  (arr', if ok then num + 1 else num,
                   if ok then lg else lg @ [Log_Error (msg tok)]))
      else Some (arr, num, lg))"
  by pat_completeness auto
termination
proof (relation "measure (\<lambda>(parse, msg, tok, st). case tok of None \<Rightarrow> 0 | Some (t, r) \<Rightarrow> Suc (length r))")
  show "wf (measure (\<lambda>(parse, msg, tok, st). case tok of None \<Rightarrow> 0 | Some (t, r) \<Rightarrow> Suc (length r)))"
    by simp
next
  fix parse :: "string \<Rightarrow> bool \<times> 'a" and msg :: "string \<Rightarrow> string"
    and tok saveptr :: string and arr :: "'a list" and num :: nat and lg :: "log_entry list"
    and x :: "bool \<times> 'a" and ok :: bool and v :: 'a and arr' :: "'a list"
  define s' where "s' = dropWhile (\<lambda>c. c = CHR '','') saveptr"
  have "length (drop 1 (dropWhile (\<lambda>c. c \<noteq> CHR '','') s')) < length saveptr" if "s' \<noteq> []"
  proof -
    from that obtain c cs where s': "s' = c # cs" by (cases s') auto
    have "c \<noteq> CHR '',''"
      using hd_dropWhile [of "\<lambda>c. c = CHR '',''" saveptr] that s'
      by (simp add: s'_def [symmetric])
    then have "dropWhile (\<lambda>c. c \<noteq> CHR '','') s' = dropWhile (\<lambda>c. c \<noteq> CHR '','') cs"
      by (simp add: s')
    moreover have "length (dropWhile (\<lambda>c. c \<noteq> CHR '','') cs) \<le> length cs"
      by (rule length_dropWhile_le)
    moreover have "length s' \<le> length saveptr"
      unfolding s'_def by (rule length_dropWhile_le)
    ultimately show ?thesis by (simp add: s')
  qed
  then show "((parse, msg, strtok_r CHR '','' saveptr, arr',
        if ok then num + 1 else num, if ok then lg else lg @ [Log_Error (msg tok)]),
       parse, msg, Some (tok, saveptr), arr, num, lg)
      \<in> measure (\<lambda>(parse, msg, tok, st). case tok of None \<Rightarrow> 0 | Some (t, r) \<Rightarrow> Suc (length r))"
    by (simp add: strtok_r_def Let_def s'_def)
qed

definition variation_error :: "string \<Rightarrow> string" where
  "variation_error tok = ''Failed to parse font variation \"'' @ tok @ ''\".\<newline>''"

definition feature_error :: "string \<Rightarrow> string" where
  "feature_error tok = ''Failed to parse font feature \"'' @ tok @ ''\".\<newline>''"

subsection \<open>\<^verbatim>\<open>init\<close>\<close>

text \<open>\<^verbatim>\<open>PT_TO_DPI\<close> is \<^verbatim>\<open>96.0 / 72.0\<close>; \<^verbatim>\<open>uint32_t font_size = floor(size * PT_TO_DPI)\<close>.\<close>

definition scaled_font_size :: "nat \<Rightarrow> 32 word" where
  "scaled_font_size size_pt = word_of_int \<lfloor>real size_pt * (96 / 72)\<rfloor>"

text \<open>
  \<open>font_name\<close>, \<open>font_size\<close>, \<open>font_variations\<close> and \<open>font_features\<close> are the fields of
  \<^verbatim>\<open>struct entry\<close> that \<^verbatim>\<open>init\<close> reads. The calls after the feature loop create the
  HarfBuzz buffer and the Cairo font face and set them on the two Cairo contexts; they
  report no error and leave the counters and arrays as they are. The out-parameters
  \<^verbatim>\<open>width\<close> and \<^verbatim>\<open>height\<close> are never written.
\<close>

definition ft_error :: "('v, 'f) ft_env \<Rightarrow> string \<Rightarrow> int \<Rightarrow> log_entry" where
  "ft_error env what err =
     Log_Error (what @ get_ft_error_string (ft_errors env) err @ ''\<newline>'')"

text \<open>The part of \<^verbatim>\<open>init\<close> after the font is loaded and sized: the two token loops and
  the creation of the buffer and of the Cairo font.\<close>

definition parse_settings ::
  "('v, 'f) ft_env \<Rightarrow> string \<Rightarrow> string \<Rightarrow> ('v, 'f) entry_backend_harfbuzz \<Rightarrow> log_entry list
    \<Rightarrow> stop + (('v, 'f) entry_backend_harfbuzz \<times> log_entry list)" where
  "parse_settings env font_variations font_features hb lg =
     (case token_loop (hb_variation_from_string env) variation_error
             (strtok_r CHR '','' font_variations)
             (hb_variations hb, num_variations hb,
              lg @ [Log_Debug ''Creating Harfbuzz font.\<newline>'']
                 @ (if font_variations \<noteq> []
                    then [Log_Debug ''Parsing font variations.\<newline>''] else [])) of
        None \<Rightarrow> Inl Out_Of_Bounds
      | Some (vars, nvars, lg1) \<Rightarrow>
          (case token_loop (hb_feature_from_string env) feature_error
                  (strtok_r CHR '','' font_features)
                  (hb_features hb, num_features hb,
                   lg1 @ (if font_features \<noteq> []
                          then [Log_Debug ''Parsing font features.\<newline>''] else [])) of
             None \<Rightarrow> Inl Out_Of_Bounds
           | Some (feats, nfeats, lg2) \<Rightarrow>
               Inr (hb\<lparr> hb_variations := vars, num_variations := nvars,
                        hb_features := feats, num_features := nfeats \<rparr>,
                    lg2 @ [Log_Debug ''Creating Harfbuzz buffer.\<newline>'',
                           Log_Debug ''Creating Cairo font.\<newline>''])))"

definition entry_backend_harfbuzz_init ::
  "('v, 'f) ft_env \<Rightarrow> string \<Rightarrow> nat \<Rightarrow> string \<Rightarrow> string \<Rightarrow> ('v, 'f) entry_backend_harfbuzz
    \<Rightarrow> stop + (('v, 'f) entry_backend_harfbuzz \<times> log_entry list)" where
  "entry_backend_harfbuzz_init env font_name font_size font_variations font_features hb =
     (let lg0 = [Log_Debug ''Creating FreeType library.\<newline>''];
          lg1 = lg0 @ [Log_Debug ''Loading FreeType font.\<newline>''];
          err2 = FT_Set_Char_Size env (scaled_font_size font_size * 64)
      in if FT_Init_FreeType env \<noteq> 0 then
           Inl (Exit_Failure
             (lg0 @ [ft_error env ''Error initialising FreeType: '' (FT_Init_FreeType env)]))
         else if FT_New_Face env font_name \<noteq> 0 then
           Inl (Exit_Failure
             (lg1 @ [ft_error env ''Error loading font: '' (FT_New_Face env font_name)]))
         else
           parse_settings env font_variations font_features hb
             (if err2 \<noteq> 0 then lg1 @ [ft_error env ''Error setting font size: '' err2]
              else lg1))"

section \<open>Per-frame rendering: \<^verbatim>\<open>entry_backend_harfbuzz_update\<close>\<close>

subsection \<open>Data\<close>

text \<open>\<^verbatim>\<open>struct directional\<close>, \<^verbatim>\<open>struct text_theme\<close> and \<^verbatim>\<open>cairo_text_extents_t\<close>, with
  the fields the backend reads.\<close>

record directional =
  dir_top :: real
  dir_right :: real
  dir_bottom :: real
  dir_left :: real

record text_theme =
  foreground_color :: color
  background_color :: color
  padding :: directional
  background_corner_radius :: "32 word"

record text_extents =
  x_bearing :: real
  y_bearing :: real
  width :: real
  height :: real
  x_advance :: real
  y_advance :: real

text \<open>
  Modelled from the spec: \<^verbatim>\<open>struct entry\<close> is declared in \<^verbatim>\<open>entry.h\<close>, which is not among
  the sources; these are the fields \<^verbatim>\<open>update\<close> and \<^verbatim>\<open>size_overflows\<close> read, and
  \<open>num_results_drawn\<close>, which \<^verbatim>\<open>update\<close> writes. The clip rectangle and the configured
  count are \<^verbatim>\<open>uint32_t\<close>, like the extents \<^verbatim>\<open>size_overflows\<close> is passed. A buffer and its
  length field are one list here: \<^verbatim>\<open>input_utf8_length\<close> is \<open>length (input_utf8 e)\<close>,
  \<^verbatim>\<open>hidden_character_utf8_length\<close> is \<open>length (hidden_character_utf8 e)\<close> and
  \<^verbatim>\<open>results.count\<close> is \<open>length (results e)\<close>. Paddings, widths and the spacing enter
  floating-point sums only and are \<open>real\<close>.
\<close>

record entry =
  horizontal :: bool
  clip_x :: "32 word"
  clip_y :: "32 word"
  clip_width :: "32 word"
  clip_height :: "32 word"
  prompt_text :: string
  prompt_theme :: text_theme
  prompt_padding :: real
  input_utf8 :: string
  input_utf32_length :: nat
  hide_input :: bool
  hidden_character_utf8 :: string
  placeholder_text :: string
  placeholder_theme :: text_theme
  input_theme :: text_theme
  input_width :: real
  num_results :: "32 word"
  results :: "string list"
  first_result :: nat
  selection :: nat
  selection_highlight_color :: color
  selection_theme :: text_theme
  default_result_theme :: text_theme
  alternate_result_theme :: text_theme
  result_spacing :: real
  num_results_drawn :: nat

text \<open>
  What the font and the shaper answer: the ascent and the height of
  \<^verbatim>\<open>cairo_font_extents\<close>, and for each text the extents \<^verbatim>\<open>cairo_glyph_extents\<close> reports
  for the glyphs \<^verbatim>\<open>hb_shape\<close> makes of it. \<^verbatim>\<open>utf8_strcasestr\<close> (\<^verbatim>\<open>unicode.c\<close>, not
  among the sources) is a parameter as well: the offset of the match in the haystack, or
  \<open>None\<close> for \<^verbatim>\<open>NULL\<close>.
\<close>

record shaper =
  font_ascent :: real
  font_height :: real
  glyph_extents :: "string \<Rightarrow> text_extents"
  utf8_strcasestr :: "string \<Rightarrow> string \<Rightarrow> nat option"

subsection \<open>The Cairo context\<close>

text \<open>
  The context is the translation part \<open>(x0, y0)\<close> of its matrix (the backend only ever
  translates), the solid source colour, the stack of \<^verbatim>\<open>cairo_save\<close>, what has been
  painted on the target, and the groups opened by \<^verbatim>\<open>cairo_push_group\<close> and not yet
  popped, innermost first. A paint records the source colour and the device-space origin
  it was made at.
\<close>

datatype paint =
  Show_Glyphs string color "real \<times> real"
| Fill_Rounded_Rectangle "32 word" "32 word" "32 word" color "real \<times> real"
| Paint_Group "paint list"

record cairo =
  matrix :: "real \<times> real"
  source :: color
  saved :: "((real \<times> real) \<times> color) list"
  target :: "paint list"
  groups :: "paint list list"

definition cairo_save :: "cairo \<Rightarrow> cairo" where
  "cairo_save cr = cr\<lparr> saved := (matrix cr, source cr) # saved cr \<rparr>"

definition cairo_restore :: "cairo \<Rightarrow> cairo" where
  "cairo_restore cr =
     (case saved cr of
        [] \<Rightarrow> cr
      | (m, s) # rest \<Rightarrow> cr\<lparr> matrix := m, source := s, saved := rest \<rparr>)"

definition cairo_translate :: "cairo \<Rightarrow> real \<Rightarrow> real \<Rightarrow> cairo" where
  "cairo_translate cr tx ty = cr\<lparr> matrix := (fst (matrix cr) + tx, snd (matrix cr) + ty) \<rparr>"

definition cairo_set_source_rgba :: "cairo \<Rightarrow> color \<Rightarrow> cairo" where
  "cairo_set_source_rgba cr c = cr\<lparr> source := c \<rparr>"

text \<open>A paint goes to the innermost open group, or to the target when none is open.\<close>

definition emit :: "paint \<Rightarrow> cairo \<Rightarrow> cairo" where
  "emit p cr =
     (case groups cr of
        [] \<Rightarrow> cr\<lparr> target := target cr @ [p] \<rparr>
      | g # gs \<Rightarrow> cr\<lparr> groups := (g @ [p]) # gs \<rparr>)"

definition cairo_show_glyphs :: "cairo \<Rightarrow> string \<Rightarrow> cairo" where
  "cairo_show_glyphs cr txt = emit (Show_Glyphs txt (source cr) (matrix cr)) cr"

text \<open>\<^verbatim>\<open>cairo_push_group\<close> saves the state and redirects drawing; \<^verbatim>\<open>cairo_pop_group\<close>
  ends the redirection, restores the state and hands back what was drawn.\<close>

definition cairo_push_group :: "cairo \<Rightarrow> cairo" where
  "cairo_push_group cr = (cairo_save cr)\<lparr> groups := [] # groups cr \<rparr>"

definition cairo_pop_group :: "cairo \<Rightarrow> paint list \<times> cairo" where
  "cairo_pop_group cr =
     (case groups cr of
        [] \<Rightarrow> ([], cr)
      | g # gs \<Rightarrow> (g, cairo_restore (cr\<lparr> groups := gs \<rparr>)))"

text \<open>\<^verbatim>\<open>cairo_save; cairo_set_source(cr, group); cairo_paint; cairo_restore\<close>: the group is
  composited at the current origin and the state is as before.\<close>

definition paint_group :: "cairo \<Rightarrow> paint list \<Rightarrow> cairo" where
  "paint_group cr g = emit (Paint_Group g) cr"

text \<open>\<^verbatim>\<open>rounded_rectangle\<close> followed by \<^verbatim>\<open>cairo_fill\<close>: the closed path of four arcs,
  filled with the source.\<close>

definition rounded_rectangle :: "cairo \<Rightarrow> 32 word \<Rightarrow> 32 word \<Rightarrow> 32 word \<Rightarrow> cairo" where
  "rounded_rectangle cr w h r = emit (Fill_Rounded_Rectangle w h r (source cr) (matrix cr)) cr"

text \<open>The implicit conversion of a \<^verbatim>\<open>double\<close> to \<^verbatim>\<open>uint32_t\<close> drops the fraction; the
  low 32 bits stand for the values C leaves undefined (negative or too large).\<close>

definition double_to_uint32 :: "real \<Rightarrow> 32 word" where
  "double_to_uint32 x = word_of_int (if 0 \<le> x then \<lfloor>x\<rfloor> else \<lceil>x\<rceil>)"

subsection \<open>Rendering one text\<close>

text \<open>\<^verbatim>\<open>render_hb_buffer\<close> after \<^verbatim>\<open>hb_shape\<close>: the glyphs are shown one ascent below
  the origin, and the reported vertical bearing is corrected by the ascent.\<close>

definition render_text :: "cairo \<Rightarrow> shaper \<Rightarrow> string \<Rightarrow> cairo \<times> text_extents" where
  "render_text cr hb txt =
     (let cr1 = cairo_save cr;
          cr2 = cairo_translate cr1 0 (font_ascent hb);
          cr3 = cairo_show_glyphs cr2 txt;
          extents = glyph_extents hb txt;
          extents = extents\<lparr> y_bearing := y_bearing extents + font_ascent hb \<rparr>
      in (cairo_restore cr3, extents))"

text \<open>The background box shared by \<^verbatim>\<open>render_text_themed\<close> and the highlighted row.\<close>

definition background_box :: "cairo \<Rightarrow> shaper \<Rightarrow> text_theme \<Rightarrow> text_extents \<Rightarrow> cairo" where
  "background_box cr hb theme extents =
     (let pad = padding theme;
          cr1 = cairo_save cr;
          cr2 = cairo_set_source_rgba cr1 (background_color theme);
          cr3 = cairo_translate cr2
                  (of_int \<lfloor>- dir_left pad + x_bearing extents\<rfloor>) (- dir_top pad);
          cr4 = rounded_rectangle cr3
                  (double_to_uint32 (of_int \<lceil>width extents + dir_left pad + dir_right pad\<rceil>))
                  (double_to_uint32 (of_int \<lceil>font_height hb + dir_top pad + dir_bottom pad\<rceil>))
                  (background_corner_radius theme)
      in cairo_restore cr4)"

definition render_text_themed ::
  "cairo \<Rightarrow> shaper \<Rightarrow> string \<Rightarrow> text_theme \<Rightarrow> cairo \<times> text_extents" where
  "render_text_themed cr hb txt theme =
     (let cr1 = cairo_set_source_rgba cr (foreground_color theme);
          (cr2, extents) = render_text cr1 hb txt
      in if color_a (background_color theme) = 0 then (cr2, extents)
         else
           (let cr3 = background_box cr2 hb theme extents;
                cr4 = cairo_set_source_rgba cr3 (foreground_color theme);
                (cr5, again) = render_text cr4 hb txt
            in (cr5, extents)))"

subsection \<open>Double-precision addition\<close>

text \<open>
  The sum of two doubles is the double nearest to the exact sum, ties going to the even
  significand (IEEE 754 binary64, round to nearest even, the sum evaluated in the precision
  of its type). A double is a multiple of \<open>2 powi (e - 52)\<close>, where \<open>e\<close> is the binary
  exponent of its magnitude, not below \<open>- 1022\<close>: 53 significant bits for a normal
  number, fewer for a subnormal one. The overflow of a sum to infinity is left out: the
  rounded sum stays a real number, on the same side of every \<^verbatim>\<open>uint32_t\<close> as the infinity
  is. Infinities and NaN are not real numbers; a matrix that holds one is outside the model.
\<close>

text \<open>The binary exponent of \<open>x \<noteq> 0\<close>: the \<open>e\<close> with \<open>2 powi e \<le> \<bar>x\<bar> < 2 powi (e + 1)\<close>,
  from the number of bits of the integer part of \<open>\<bar>x\<bar>\<close>, or of \<open>1 / \<bar>x\<bar>\<close> when \<open>\<bar>x\<bar> < 1\<close>.\<close>

definition binary_exponent :: "real \<Rightarrow> int" where
  "binary_exponent x =
     (if 1 \<le> \<bar>x\<bar> then bitlen \<lfloor>\<bar>x\<bar>\<rfloor> - 1
      else - bitlen (\<lceil>1 / \<bar>x\<bar>\<rceil> - 1))"

text \<open>The nearest integer, a tie going to the even one.\<close>

definition round_half_even :: "real \<Rightarrow> int" where
  "round_half_even x =
     (let n = \<lfloor>x\<rfloor>;
          r = x - of_int n
      in if r < 1 / 2 then n
         else if 1 / 2 < r then n + 1
         else if even n then n else n + 1)"

text \<open>The spacing of the doubles around \<open>x \<noteq> 0\<close>, and the double nearest to \<open>x\<close>.\<close>

definition double_spacing :: "real \<Rightarrow> real" where
  "double_spacing x = 2 powi (max (binary_exponent x) (- 1022) - 52)"

definition round_double :: "real \<Rightarrow> real" where
  "round_double x =
     (if x = 0 then 0
      else of_int (round_half_even (x / double_spacing x)) * double_spacing x)"

subsection \<open>\<^verbatim>\<open>size_overflows\<close>\<close>

text \<open>
  \<^verbatim>\<open>mat.x0 + width\<close> and \<^verbatim>\<open>mat.y0 + height\<close> are double additions: the
  \<^verbatim>\<open>uint32_t\<close> extent is converted to a double, exactly, and the sum is rounded. The right
  side of the comparison is the \<^verbatim>\<open>uint32_t\<close> sum, which wraps at \<open>2 ^ 32\<close>, converted to a
  double, exactly.
\<close>

definition size_overflows :: "entry \<Rightarrow> cairo \<Rightarrow> 32 word \<Rightarrow> 32 word \<Rightarrow> bool" where
  "size_overflows e cr w h =
     (if horizontal e then
        (if round_double (fst (matrix cr) + real (unat w)) > real (unat (clip_x e + clip_width e))
         then True else False)
      else
        (if round_double (snd (matrix cr) + real (unat h)) > real (unat (clip_y e + clip_height e))
         then True else False))"

subsection \<open>The input text\<close>

text \<open>
  The masked input: \<^verbatim>\<open>buf\<close> has \<open>1 + nchars * char_size\<close> bytes; the nested loops store
  the masking character once per input character, then the terminator is written.
  \<^verbatim>\<open>xmalloc\<close> gives no promise about the initial bytes; \<open>hidden_buffer\<close> starts from NULs,
  and every byte is written before it is read.
\<close>

definition fill_hidden :: "string \<Rightarrow> nat \<Rightarrow> string \<Rightarrow> string" where
  "fill_hidden hidden nchars buf =
     (let char_size = length hidden;
          buf = fold (\<lambda>i buf. fold (\<lambda>j buf. buf[i * char_size + j := hidden ! j])
                                  [0..<char_size] buf)
                  [0..<nchars] buf
      in buf[char_size * nchars := CHR 0x00])"

definition hidden_buffer :: "entry \<Rightarrow> string" where
  "hidden_buffer e =
     fill_hidden (hidden_character_utf8 e) (input_utf32_length e)
       (replicate (1 + input_utf32_length e * length (hidden_character_utf8 e)) (CHR 0x00))"

text \<open>The C string a buffer holds: its bytes before the first NUL.\<close>

definition c_string :: "string \<Rightarrow> string" where
  "c_string buf = takeWhile (\<lambda>c. c \<noteq> CHR 0x00) buf"

text \<open>The text and the theme of the second \<^verbatim>\<open>render_text_themed\<close> call of \<^verbatim>\<open>update\<close>.\<close>

definition input_text :: "entry \<Rightarrow> string \<times> text_theme" where
  "input_text e =
     (if length (input_utf8 e) = 0 then (placeholder_text e, placeholder_theme e)
      else if hide_input e then (c_string (hidden_buffer e), input_theme e)
      else (input_utf8 e, input_theme e))"

subsection \<open>The highlighted row\<close>

text \<open>
  The split of the selected result into \<open>(prematch, prematch_len, match, postmatch)\<close>: the
  texts the three \<^verbatim>\<open>render_text\<close> calls are given. \<open>None\<close> is the write
  \<^verbatim>\<open>match[input_utf8_length + prematch_len] = '\0'\<close> falling outside the copy of the
  result, which happens when the reported match does not fit into the result.
  \<^verbatim>\<open>postmatch_len\<close> is a \<^verbatim>\<open>size_t\<close> difference; within bounds it does not wrap.
  Without a match \<^verbatim>\<open>prematch_len\<close> is neither set nor read; 0 stands for it.
\<close>

definition split_match ::
  "entry \<Rightarrow> shaper \<Rightarrow> string \<Rightarrow> (string \<times> nat \<times> string option \<times> string option) option" where
  "split_match e hb result =
     (if length (input_utf8 e) > 0 \<and> color_a (selection_highlight_color e) \<noteq> 0 then
        (case utf8_strcasestr hb result (input_utf8 e) of
           None \<Rightarrow> Some (result, 0, None, None)
         | Some prematch_len \<Rightarrow>
             if length result < length (input_utf8 e) + prematch_len then None
             else
               (let postmatch_len = length result - prematch_len - length (input_utf8 e)
                in Some (take prematch_len result, prematch_len,
                         Some (take (length (input_utf8 e)) (drop prematch_len result)),
                         if postmatch_len > 0
                         then Some (drop (length (input_utf8 e) + prematch_len) result)
                         else None)))
      else Some (result, 0, None, None))"

text \<open>The update of \<^verbatim>\<open>extents\<close> by the extents of the next segment: the new width uses
  the advance before it is increased.\<close>

definition add_extents :: "text_extents \<Rightarrow> text_extents \<Rightarrow> text_extents" where
  "add_extents extents subextents =
     extents\<lparr> width := x_advance extents - x_bearing extents
                          + x_bearing subextents + width subextents,
              x_advance := x_advance extents + x_advance subextents \<rparr>"

text \<open>One pass of the loop \<^verbatim>\<open>for (pass = 0; pass < 2; pass++)\<close>, from \<^verbatim>\<open>cairo_save\<close> to
  \<^verbatim>\<open>cairo_restore\<close>.\<close>

definition highlight_pass ::
  "entry \<Rightarrow> shaper \<Rightarrow> cairo \<Rightarrow> string \<times> nat \<times> string option \<times> string option
    \<Rightarrow> cairo \<times> text_extents" where
  "highlight_pass e hb cr segs =
     (case segs of (prematch, prematch_len, match, postmatch) \<Rightarrow>
      let cr = cairo_save cr;
          cr = cairo_set_source_rgba cr (foreground_color (selection_theme e));
          (cr, subextents) = render_text cr hb prematch;
          extents = subextents;
          (cr, subextents, extents) =
            (case match of
               None \<Rightarrow> (cr, subextents, extents)
             | Some m \<Rightarrow>
                 let cr = cairo_translate cr (x_advance subextents) 0;
                     cr = cairo_set_source_rgba cr (selection_highlight_color e);
                     (cr, subextents) = render_text cr hb m
                 in (cr, subextents,
                     if prematch_len = 0 then subextents else add_extents extents subextents));
          (cr, extents) =
            (case postmatch of
               None \<Rightarrow> (cr, extents)
             | Some p \<Rightarrow>
                 let cr = cairo_translate cr (x_advance subextents) 0;
                     cr = cairo_set_source_rgba cr (foreground_color (selection_theme e));
                     (cr, subextents) = render_text cr hb p
                 in (cr, add_extents extents subextents))
      in (cairo_restore cr, extents))"

text \<open>Both passes: the first draws and measures; with a background, the box is painted
  over it and the second pass draws the segments again.\<close>

definition render_highlighted ::
  "entry \<Rightarrow> shaper \<Rightarrow> cairo \<Rightarrow> string \<Rightarrow> (cairo \<times> text_extents) option" where
  "render_highlighted e hb cr result =
     (case split_match e hb result of
        None \<Rightarrow> None
      | Some segs \<Rightarrow>
          (let (cr1, extents) = highlight_pass e hb cr segs
           in if color_a (background_color (selection_theme e)) = 0 then Some (cr1, extents)
              else Some (highlight_pass e hb
                           (background_box cr1 hb (selection_theme e) extents) segs)))"

subsection \<open>The result loop\<close>

text \<open>How one iteration ends: it goes on to the next row, it leaves the loop by
  \<^verbatim>\<open>break\<close>, or it writes outside a buffer.\<close>

datatype 'a step = Continue 'a | Break 'a | Fault

text \<open>
  The body of \<^verbatim>\<open>for (i = 0; i < num_results; i++)\<close>. The state is the context, the
  variable \<^verbatim>\<open>extents\<close> and the field \<^verbatim>\<open>entry->num_results_drawn\<close>.
\<close>

definition loop_body ::
  "entry \<Rightarrow> shaper \<Rightarrow> nat \<Rightarrow> cairo \<times> text_extents \<times> nat \<Rightarrow> (cairo \<times> text_extents \<times> nat) step" where
  "loop_body e hb i st =
     (case st of (cr, extents, drawn) \<Rightarrow>
      let cr = (if horizontal e
                then cairo_translate cr (x_advance extents + result_spacing e) 0
                else cairo_translate cr 0 (font_height hb + result_spacing e));
          index = i + first_result e
      in if (if num_results e = 0 then size_overflows e cr 0 0
             else i \<ge> unat (num_results e))
         then Break (cr, extents, drawn)
         else if index \<ge> length (results e) then Break (cr, extents, drawn)
         else
           (let result = results e ! index
            in if i \<noteq> selection e \<or> color_a (selection_highlight_color e) = 0 then
                 (let theme = (if i = selection e then selection_theme e
                               else if index mod 2 \<noteq> 0 then alternate_result_theme e
                               else default_result_theme e)
                  in if num_results e > 0 then
                       (let (cr, extents) = render_text_themed cr hb result theme
                        in Continue (cr, extents, drawn))
                     else if \<not> horizontal e then
                       (if size_overflows e cr 0 (double_to_uint32 (font_height hb))
                        then Break (cr, extents, i)
                        else (let (cr, extents) = render_text_themed cr hb result theme
                              in Continue (cr, extents, drawn)))
                     else
                       (let cr = cairo_push_group cr;
                            (cr, extents) = render_text_themed cr hb result theme;
                            (group, cr) = cairo_pop_group cr
                        in if size_overflows e cr (double_to_uint32 (x_advance extents)) 0
                           then Break (cr, extents, i)
                           else Continue (paint_group cr group, extents, drawn)))
               else
                 (case render_highlighted e hb cr result of
                    None \<Rightarrow> Fault
                  | Some (cr, extents) \<Rightarrow> Continue (cr, extents, drawn))))"

function results_loop ::
  "entry \<Rightarrow> shaper \<Rightarrow> nat \<Rightarrow> nat \<Rightarrow> cairo \<times> text_extents \<times> nat
    \<Rightarrow> (nat \<times> cairo \<times> text_extents \<times> nat) option" where
  "results_loop e hb n i st =
     (if i < n then
        (case loop_body e hb i st of
           Continue st' \<Rightarrow> results_loop e hb n (Suc i) st'
         | Break st' \<Rightarrow> Some (i, st')
         | Fault \<Rightarrow> None)
      else Some (i, st))"
  by pat_completeness auto
termination
  by (relation "measure (\<lambda>(e, hb, n, i, st). n - i)") auto

subsection \<open>\<^verbatim>\<open>update\<close>\<close>

text \<open>The prompt and the input, up to the point where the result loop starts: the
  context and the variable \<^verbatim>\<open>extents\<close>, its advance raised to the minimum input width.\<close>

definition render_prompt_and_input :: "entry \<Rightarrow> shaper \<Rightarrow> cairo \<Rightarrow> cairo \<times> text_extents" where
  "render_prompt_and_input e hb cr =
     (let cr = cairo_save cr;
          (cr, extents) = render_text_themed cr hb (prompt_text e) (prompt_theme e);
          cr = cairo_translate cr (x_advance extents) 0;
          cr = cairo_translate cr (prompt_padding e) 0;
          (cr, extents) = render_text_themed cr hb (fst (input_text e)) (snd (input_text e));
          extents = extents\<lparr> x_advance := (if x_advance extents > input_width e
                                             then x_advance extents else input_width e) \<rparr>
      in (cr, extents))"

text \<open>\<^verbatim>\<open>uint32_t num_results\<close>: the number of results in auto-fit mode, else the smaller
  of the configured count and the number of results; the assignment keeps 32 bits.\<close>

definition loop_bound :: "entry \<Rightarrow> nat" where
  "loop_bound e =
     (if num_results e = 0 then length (results e)
      else if unat (num_results e) < length (results e) then unat (num_results e)
      else length (results e)) mod 2 ^ 32"

definition entry_backend_harfbuzz_update ::
  "entry \<Rightarrow> shaper \<Rightarrow> cairo \<Rightarrow> (cairo \<times> entry) option" where
  "entry_backend_harfbuzz_update e hb cr =
     (let (cr, extents) = render_prompt_and_input e hb cr
      in case results_loop e hb (loop_bound e) 0 (cr, extents, num_results_drawn e) of
           None \<Rightarrow> None
         | Some (i, cr, extents, drawn) \<Rightarrow>
             Some (cairo_restore cr, e\<lparr> num_results_drawn := i \<rparr>))"

section \<open>The specification's notions\<close>

text \<open>The definitions of this section are not translated from the code: they say what the
  specification says, for the theorems to compare the code with.\<close>

subsection \<open>The overflow test\<close>

text \<open>The far edge of a candidate of extent \<open>w\<close> by \<open>h\<close> at the current origin, and the
  clip boundary \<open>clip_origin + clip_size\<close>, both on the scroll axis and both exact sums.\<close>

definition far_edge :: "entry \<Rightarrow> cairo \<Rightarrow> 32 word \<Rightarrow> 32 word \<Rightarrow> real" where
  "far_edge e cr w h =
     (if horizontal e then fst (matrix cr) + real (unat w) else snd (matrix cr) + real (unat h))"

definition clip_boundary :: "entry \<Rightarrow> real" where
  "clip_boundary e =
     (if horizontal e then real (unat (clip_x e)) + real (unat (clip_width e))
      else real (unat (clip_y e)) + real (unat (clip_height e)))"

subsection \<open>Rows\<close>

text \<open>The theme of the row at on-screen position \<open>i\<close>: the selection theme for the
  selected row, else the default theme for an even absolute index and the alternate theme for
  an odd one.\<close>

definition row_theme :: "entry \<Rightarrow> nat \<Rightarrow> text_theme" where
  "row_theme e i =
     (if i = selection e then selection_theme e
      else if even (i + first_result e) then default_result_theme e
      else alternate_result_theme e)"

text \<open>The row that is drawn by the match highlighter: the selected one, when highlighting is
  enabled.\<close>

definition highlighted :: "entry \<Rightarrow> nat \<Rightarrow> bool" where
  "highlighted e i = (i = selection e \<and> color_a (selection_highlight_color e) \<noteq> 0)"

text \<open>Advancing the transform to the next row: by the previous advance plus the spacing
  along a horizontal list, by one font height plus the spacing down a vertical one.\<close>

definition advance_row :: "entry \<Rightarrow> shaper \<Rightarrow> cairo \<Rightarrow> text_extents \<Rightarrow> cairo" where
  "advance_row e hb cr extents =
     (if horizontal e then cairo_translate cr (x_advance extents + result_spacing e) 0
      else cairo_translate cr 0 (font_height hb + result_spacing e))"

text \<open>
  Drawing the row at position \<open>i\<close> with a given theme, no questions asked: advance, then
  render the result at absolute index \<open>i + first_result\<close>: by the match highlighter for the
  highlighted row, through an off-screen group in horizontal auto-fit mode, directly
  otherwise. \<open>None\<close> is the highlighter writing out of bounds.
\<close>

definition draw_row ::
  "entry \<Rightarrow> shaper \<Rightarrow> text_theme \<Rightarrow> nat \<Rightarrow> cairo \<times> text_extents \<Rightarrow> (cairo \<times> text_extents) option" where
  "draw_row e hb theme i st =
     (case st of (cr, extents) \<Rightarrow>
      let cr = advance_row e hb cr extents;
          result = results e ! (i + first_result e)
      in if highlighted e i then render_highlighted (e\<lparr> selection_theme := theme \<rparr>) hb cr result
         else if num_results e = 0 \<and> horizontal e then
           (let (cr, extents) = render_text_themed (cairo_push_group cr) hb result theme;
                (group, cr) = cairo_pop_group cr
            in Some (paint_group cr group, extents))
         else Some (render_text_themed cr hb result theme))"

text \<open>Drawing the rows at the given positions in turn, each with its theme.\<close>

fun draw_rows ::
  "entry \<Rightarrow> shaper \<Rightarrow> nat list \<Rightarrow> cairo \<times> text_extents \<Rightarrow> (cairo \<times> text_extents) option" where
  "draw_rows e hb [] st = Some st"
| "draw_rows e hb (i # rest) st =
     (case draw_row e hb (row_theme e i) i st of
        None \<Rightarrow> None
      | Some st' \<Rightarrow> draw_rows e hb rest st')"

subsection \<open>Rows in vertical auto-fit mode\<close>

text \<open>
  The row at position \<open>i\<close> of a vertical list whose prompt line has its origin at height
  \<open>y\<close> has its own origin \<open>i + 1\<close> steps further down; its far edge is one font height
  below its origin. \<open>row_fits\<close> writes out the comparisons the loop makes for a row, for
  sums that are exact: the far edge against the boundary the code forms, and for the
  highlighted row the origin alone. \<open>rows_fitting\<close> counts the candidates before the first
  one that is past the end of the results or fails these comparisons.
\<close>

definition row_origin :: "entry \<Rightarrow> shaper \<Rightarrow> real \<Rightarrow> nat \<Rightarrow> real" where
  "row_origin e hb y i = y + real (i + 1) * (font_height hb + result_spacing e)"

definition row_fits :: "entry \<Rightarrow> shaper \<Rightarrow> real \<Rightarrow> nat \<Rightarrow> bool" where
  "row_fits e hb y i =
     (if highlighted e i then row_origin e hb y i \<le> real (unat (clip_y e + clip_height e))
      else row_origin e hb y i + font_height hb \<le> real (unat (clip_y e + clip_height e)))"

definition rows_fitting :: "entry \<Rightarrow> shaper \<Rightarrow> real \<Rightarrow> nat" where
  "rows_fitting e hb y =
     length (takeWhile (\<lambda>i. i + first_result e < length (results e) \<and> row_fits e hb y i)
               [0..<length (results e)])"

subsection \<open>Combined extents of the highlighted row\<close>

text \<open>The extents of one segment as \<^verbatim>\<open>shape_and_render\<close> returns them, and the
  composition of the running extents with the next segment's.\<close>

definition measured :: "shaper \<Rightarrow> string \<Rightarrow> text_extents" where
  "measured hb txt =
     (glyph_extents hb txt)\<lparr> y_bearing := y_bearing (glyph_extents hb txt) + font_ascent hb \<rparr>"

definition compose_extents :: "text_extents \<Rightarrow> text_extents \<Rightarrow> text_extents" where
  "compose_extents run seg =
     run\<lparr> width := x_advance run - x_bearing run + x_bearing seg + width seg,
          x_advance := x_advance run + x_advance seg \<rparr>"

definition combined_extents ::
  "shaper \<Rightarrow> string \<Rightarrow> string option \<Rightarrow> string option \<Rightarrow> text_extents" where
  "combined_extents hb prematch match postmatch =
     (case match of
        None \<Rightarrow> measured hb prematch
      | Some m \<Rightarrow>
          (let run = (if prematch = [] then measured hb m
                      else compose_extents (measured hb prematch) (measured hb m))
           in case postmatch of
                None \<Rightarrow> run
              | Some p \<Rightarrow> compose_extents run (measured hb p)))"

section \<open>Sample inputs\<close>

text \<open>Concrete values for the examples: a theme without a background box, a dimmed one
  and one with a box, a font of height 10 whose glyphs are 6 wide, a byte-wise substring search standing for
  \<^verbatim>\<open>utf8_strcasestr\<close> (the two agree on lower-case ASCII), an entry with five results
  in a vertical list, and an empty canvas.\<close>

definition example_theme :: text_theme where
  "example_theme =
     \<lparr> foreground_color = \<lparr> color_r = 1, color_g = 1, color_b = 1, color_a = 1 \<rparr>,
       background_color = \<lparr> color_r = 0, color_g = 0, color_b = 0, color_a = 0 \<rparr>,
       padding = \<lparr> dir_top = 0, dir_right = 0, dir_bottom = 0, dir_left = 0 \<rparr>,
       background_corner_radius = 0 \<rparr>"

definition example_dim_theme :: text_theme where
  "example_dim_theme =
     example_theme\<lparr> foreground_color
       := \<lparr> color_r = 1 / 2, color_g = 1 / 2, color_b = 1 / 2, color_a = 1 \<rparr> \<rparr>"

definition example_box_theme :: text_theme where
  "example_box_theme =
     example_theme\<lparr> background_color
         := \<lparr> color_r = 0, color_g = 0, color_b = 1, color_a = 1 \<rparr>,
       padding := \<lparr> dir_top = 1, dir_right = 2, dir_bottom = 1, dir_left = 2 \<rparr>,
       background_corner_radius := 3 \<rparr>"

fun find_substring :: "string \<Rightarrow> string \<Rightarrow> nat option" where
  "find_substring [] needle = (if needle = [] then Some 0 else None)"
| "find_substring (c # cs) needle =
     (if take (length needle) (c # cs) = needle then Some 0
      else map_option Suc (find_substring cs needle))"

definition example_shaper :: shaper where
  "example_shaper =
     \<lparr> font_ascent = 8, font_height = 10,
       glyph_extents = (\<lambda>txt. \<lparr> x_bearing = 0, y_bearing = - 8, width = 6 * real (length txt),
                                 height = 10, x_advance = 6 * real (length txt), y_advance = 0 \<rparr>),
       utf8_strcasestr = find_substring \<rparr>"

definition example_entry :: entry where
  "example_entry =
     \<lparr> horizontal = False, clip_x = 0, clip_y = 0, clip_width = 200, clip_height = 50,
       prompt_text = ''run: '', prompt_theme = example_theme, prompt_padding = 4,
       input_utf8 = ''wor'', input_utf32_length = 3, hide_input = False,
       hidden_character_utf8 = ''*'', placeholder_text = ''type here'',
       placeholder_theme = example_theme, input_theme = example_theme, input_width = 0,
       num_results = 0,
       results = [''hello world'', ''worm'', ''sword'', ''network'', ''word''],
       first_result = 0, selection = 0,
       selection_highlight_color = \<lparr> color_r = 1, color_g = 0, color_b = 0, color_a = 0 \<rparr>,
       selection_theme = example_box_theme, default_result_theme = example_theme,
       alternate_result_theme = example_dim_theme, result_spacing = 0, num_results_drawn = 0 \<rparr>"

definition example_canvas :: cairo where
  "example_canvas =
     \<lparr> matrix = (0, 0), source = \<lparr> color_r = 0, color_g = 0, color_b = 0, color_a = 1 \<rparr>,
       saved = [], target = [], groups = [] \<rparr>"

section \<open>Properties of the colour utility\<close>

lemma byte_hi:
  fixes A B C D :: nat
  assumes "B < 256" "C < 256" "D < 256"
  shows "(A * 16777216 + B * 65536 + C * 256 + D) div 16777216 = A"
proof -
  define L where "L = B * 65536 + C * 256 + D"
  have L: "L < 16777216" using assms by (simp add: L_def)
  have "(A * 16777216 + L) div 16777216 = A" using L by simp
  then show ?thesis by (simp add: L_def add.assoc)
qed

lemma byte_2:
  fixes A B C D :: nat
  assumes "B < 256" "C < 256" "D < 256"
  shows "(A * 16777216 + B * 65536 + C * 256 + D) div 65536 mod 256 = B"
proof -
  define H where "H = A * 256 + B"
  define L where "L = C * 256 + D"
  have L: "L < 65536" using assms by (simp add: L_def)
  have "(H * 65536 + L) div 65536 = H" using L by simp
  moreover have "H mod 256 = B" using assms by (simp add: H_def)
  moreover have "A * 16777216 + B * 65536 + C * 256 + D = H * 65536 + L"
    by (simp add: H_def L_def)
  ultimately show ?thesis by simp
qed

lemma byte_3:
  fixes A B C D :: nat
  assumes "B < 256" "C < 256" "D < 256"
  shows "(A * 16777216 + B * 65536 + C * 256 + D) div 256 mod 256 = C"
proof -
  define K where "K = A * 256 + B"
  define M where "M = K * 256 + C"
  have "(M * 256 + D) div 256 = M" using assms by simp
  moreover have "M mod 256 = C" using assms by (simp add: M_def)
  moreover have "A * 16777216 + B * 65536 + C * 256 + D = M * 256 + D"
    by (simp add: K_def M_def)
  ultimately show ?thesis by simp
qed

lemma byte_4:
  fixes A B C D :: nat
  assumes "B < 256" "C < 256" "D < 256"
  shows "(A * 16777216 + B * 65536 + C * 256 + D) mod 256 = D"
proof -
  define M where "M = A * 65536 + B * 256 + C"
  have "(M * 256 + D) mod 256 = D" using assms by simp
  moreover have "A * 16777216 + B * 65536 + C * 256 + D = M * 256 + D"
    by (simp add: M_def)
  ultimately show ?thesis by simp
qed

lemma channel_r: "unat (drop_bit 24 ((w :: 32 word) AND 0xFF000000)) = unat w div 16777216 mod 256"
proof -
  have m: "(0xFF000000 :: 32 word) = push_bit 24 (mask 8)" by (simp add: mask_eq_exp_minus_1)
  have "drop_bit 24 (w AND 0xFF000000) = take_bit 8 (drop_bit 24 w)"
    unfolding m by (auto simp: bit_eq_iff bit_simps)
  then show ?thesis
    by (simp add: take_bit_eq_mod drop_bit_eq_div unat_div unat_mod)
qed

lemma channel_g: "unat (drop_bit 16 ((w :: 32 word) AND 0x00FF0000)) = unat w div 65536 mod 256"
proof -
  have m: "(0x00FF0000 :: 32 word) = push_bit 16 (mask 8)" by (simp add: mask_eq_exp_minus_1)
  have "drop_bit 16 (w AND 0x00FF0000) = take_bit 8 (drop_bit 16 w)"
    unfolding m by (auto simp: bit_eq_iff bit_simps)
  then show ?thesis
    by (simp add: take_bit_eq_mod drop_bit_eq_div unat_div unat_mod)
qed

lemma channel_b: "unat (drop_bit 8 ((w :: 32 word) AND 0x0000FF00)) = unat w div 256 mod 256"
proof -
  have m: "(0x0000FF00 :: 32 word) = push_bit 8 (mask 8)" by (simp add: mask_eq_exp_minus_1)
  have "drop_bit 8 (w AND 0x0000FF00) = take_bit 8 (drop_bit 8 w)"
    unfolding m by (auto simp: bit_eq_iff bit_simps)
  then show ?thesis
    by (simp add: take_bit_eq_mod drop_bit_eq_div unat_div unat_mod)
qed

lemma channel_a: "unat (drop_bit 0 ((w :: 32 word) AND 0x000000FF)) = unat w mod 256"
proof -
  have m: "(0x000000FF :: 32 word) = mask 8" by (simp add: mask_eq_exp_minus_1)
  have "w AND 0x000000FF = take_bit 8 w"
    unfolding m by (simp add: take_bit_eq_mask)
  then show ?thesis
    by (simp add: take_bit_eq_mod unat_mod)
qed

lemma channels_bytes:
  assumes "A < 256" "B < 256" "C < 256" "D < 256"
    and w: "unat w = A * 16777216 + B * 65536 + C * 256 + D"
  shows "channels w = rgba A B C D"
proof -
  have "unat w div 16777216 mod 256 = A"
    unfolding w using assms(1-4) by (simp only: byte_hi mod_less)
  moreover have "unat w div 65536 mod 256 = B"
    unfolding w using assms(2-4) by (rule byte_2)
  moreover have "unat w div 256 mod 256 = C"
    unfolding w using assms(2-4) by (rule byte_3)
  moreover have "unat w mod 256 = D"
    unfolding w using assms(2-4) by (rule byte_4)
  ultimately show ?thesis
    unfolding channels_def rgba_def channel_r channel_g channel_b channel_a by simp
qed

lemma hex_digit_facts:
  assumes "hex_digit c = Some d"
  shows "d < 16" "\<not> isspace c" "c \<noteq> CHR ''-''" "c \<noteq> CHR ''+''" "c \<noteq> CHR ''x''" "c \<noteq> CHR ''X''"
  using assms by (auto simp: hex_digit_def isspace_def Let_def split: if_splits)

lemma hex_digit_zero: "hex_digit CHR ''0'' = Some 0"
  by (simp add: hex_digit_def)

lemma channels_range:
  "0 \<le> color_r (channels w) \<and> color_r (channels w) \<le> 1
   \<and> 0 \<le> color_g (channels w) \<and> color_g (channels w) \<le> 1
   \<and> 0 \<le> color_b (channels w) \<and> color_b (channels w) \<le> 1
   \<and> 0 \<le> color_a (channels w) \<and> color_a (channels w) \<le> 1"
proof -
  have lo: "0 \<le> real n / 255" for n by simp
  have hi: "real (n mod 256) / 255 \<le> 1" for n
  proof -
    have "n mod 256 < 256" by simp
    then have "n mod 256 \<le> 255" by linarith
    then have "real (n mod 256) \<le> 255" by (metis of_nat_le_iff of_nat_numeral)
    then show ?thesis by simp
  qed
  show ?thesis
    by (simp only: channels_def color.simps channel_r channel_g channel_b channel_a lo hi simp_thms)
qed

lemma channels_valid: "channels w \<noteq> invalid_color"
proof
  assume "channels w = invalid_color"
  then have "color_r (channels w) = - 1" by (simp add: invalid_color_def)
  with channels_range [of w] show False by linarith
qed

lemma strtol16_hex:
  assumes hex: "\<forall>c \<in> set s. hex_digit c \<noteq> None"
    and small: "strtol_digits 0 s < 2 ^ 63"
  shows "strtol16 s = int (strtol_digits 0 s)"
proof (cases s)
  case Nil
  then show ?thesis by (simp add: strtol16_def)
next
  case (Cons c cs)
  from hex Cons obtain d where d: "hex_digit c = Some d" by auto
  have sp: "dropWhile isspace s = s" using Cons hex_digit_facts(2) [OF d] by simp
  have sg: "strtol_sign s = (False, s)"
    using Cons hex_digit_facts(3,4) [OF d] by simp
  have pf: "strtol_prefix s = s"
  proof (cases cs)
    case Nil
    with Cons show ?thesis by simp
  next
    case (Cons x xs)
    with hex \<open>s = c # cs\<close> obtain e where "hex_digit x = Some e" by auto
    from hex_digit_facts(5,6) [OF this] Cons \<open>s = c # cs\<close> show ?thesis by simp
  qed
  from small have "int (strtol_digits 0 s) \<le> 2 ^ 63 - 1" by simp
  then show ?thesis by (simp add: strtol16_def sp sg pf)
qed

lemma strtol_digits_nonhex:
  "\<forall>c \<in> set s. hex_digit c = None \<Longrightarrow> strtol_digits 0 (strtol_prefix s) = 0"
proof (cases s)
  case Nil
  then show ?thesis by simp
next
  case (Cons c cs)
  assume all: "\<forall>c \<in> set s. hex_digit c = None"
  with Cons have c: "hex_digit c = None" by simp
  then have "c \<noteq> CHR ''0''" using hex_digit_zero by auto
  then have "strtol_prefix s = s" using Cons by (cases cs) simp_all
  then show ?thesis using Cons c by simp
qed

lemma strtol16_nonhex:
  assumes "\<forall>c \<in> set s. hex_digit c = None"
  shows "strtol16 s = 0"
proof -
  define r where "r = dropWhile isspace s"
  obtain neg rest where sg: "strtol_sign r = (neg, rest)"
    by (cases "strtol_sign r")
  have "set r \<subseteq> set s" unfolding r_def by (auto dest: set_dropWhileD)
  moreover have "set rest \<subseteq> set r"
    using sg by (cases r) (auto split: if_splits)
  ultimately have "\<forall>c \<in> set rest. hex_digit c = None" using assms by blast
  then have "strtol_digits 0 (strtol_prefix rest) = 0" by (rule strtol_digits_nonhex)
  then show ?thesis using sg by (simp add: strtol16_def r_def [symmetric])
qed


lemma unat_small: "m < 2 ^ 32 \<Longrightarrow> unat (of_nat m :: 32 word) = m"
  by (simp add: unat_of_nat)

lemma shifted_alpha:
  assumes n: "n < 2 ^ 24"
  shows "unat (push_bit 8 (of_nat n :: 32 word) OR 0xFF) = n * 256 + 255"
proof -
  have "push_bit 8 (of_nat n :: 32 word) AND 0xFF = 0"
  proof -
    have "(0xFF :: 32 word) = mask 8" by (simp add: mask_eq_exp_minus_1)
    then show ?thesis by (simp add: bit_eq_iff bit_simps)
  qed
  then have "push_bit 8 (of_nat n :: 32 word) OR 0xFF = push_bit 8 (of_nat n) + 0xFF"
    by (simp add: disjunctive_add_eq_or)
  also have "\<dots> = of_nat (n * 256 + 255)" by (simp add: push_bit_eq_mult)
  finally have eq: "push_bit 8 (of_nat n :: 32 word) OR 0xFF = of_nat (n * 256 + 255)" .
  have "n * 256 + 255 < 2 ^ 32" using n by simp
  then show ?thesis unfolding eq by (rule unat_small)
qed

lemma rgb_word:
  assumes "A < 256" "B < 256" "C < 256" and m: "m = A * 65536 + B * 256 + C"
  shows "channels (push_bit 8 (long_to_uint32 (int m)) OR 0xFF) = rgba A B C 255"
proof -
  have "m < 2 ^ 24" using assms by simp
  then have "unat (push_bit 8 (of_nat m :: 32 word) OR 0xFF) = m * 256 + 255"
    by (rule shifted_alpha)
  also have "\<dots> = A * 16777216 + B * 65536 + C * 256 + 255" by (simp add: m)
  finally show ?thesis
    using assms(1-3) by (simp add: long_to_uint32_def channels_bytes)
qed

lemma rgba_word:
  assumes "A < 256" "B < 256" "C < 256" "D < 256"
    and m: "m = A * 16777216 + B * 65536 + C * 256 + D"
  shows "channels (long_to_uint32 (int m)) = rgba A B C D"
proof -
  have "m < 2 ^ 32" using assms by simp
  then have "unat (of_nat m :: 32 word) = A * 16777216 + B * 65536 + C * 256 + D"
    unfolding m by (rule unat_small)
  then show ?thesis
    using assms(1-4) by (simp add: long_to_uint32_def channels_bytes)
qed

lemma skip_hash_eq: "skip_hash s = (if take 1 s = ''#'' then drop 1 s else s)"
  by (cases s) (simp_all add: skip_hash_def)

lemma parse_color_eq:
  "parse_color s =
     (case map digit (skip_hash s) of
        [r, g, b] \<Rightarrow> rgba (17 * r) (17 * g) (17 * b) 255
      | [r, g, b, a] \<Rightarrow> rgba (17 * r) (17 * g) (17 * b) (17 * a)
      | [r1, r0, g1, g0, b1, b0] \<Rightarrow> rgba (16 * r1 + r0) (16 * g1 + g0) (16 * b1 + b0) 255
      | [r1, r0, g1, g0, b1, b0, a1, a0] \<Rightarrow>
          rgba (16 * r1 + r0) (16 * g1 + g0) (16 * b1 + b0) (16 * a1 + a0)
      | _ \<Rightarrow> invalid_color)"
  by (simp only: parse_color_def skip_hash_eq)

lemma len3: "length h = 3 \<Longrightarrow> \<exists>a b c. h = [a, b, c]"
  by (auto simp: length_Suc_conv eval_nat_numeral)

lemma len4: "length h = 4 \<Longrightarrow> \<exists>a b c d. h = [a, b, c, d]"
  by (auto simp: length_Suc_conv eval_nat_numeral)

lemma len6: "length h = 6 \<Longrightarrow> \<exists>a b c d e f. h = [a, b, c, d, e, f]"
  by (auto simp: length_Suc_conv eval_nat_numeral)

lemma len8: "length h = 8 \<Longrightarrow> \<exists>a b c d e f g i. h = [a, b, c, d, e, f, g, i]"
  by (auto simp: length_Suc_conv eval_nat_numeral)

lemma hex_to_color_3:
  assumes h: "skip_hash s = [a, b, c]"
    and d: "hex_digit a = Some x" "hex_digit b = Some y" "hex_digit c = Some z"
  shows "hex_to_color s = rgba (17 * x) (17 * y) (17 * z) 255"
proof -
  let ?str = "[a, a, b, b, c, c]"
  define m where "m = strtol_digits 0 ?str"
  note lt = hex_digit_facts(1) [OF d(1)] hex_digit_facts(1) [OF d(2)] hex_digit_facts(1) [OF d(3)]
  have m: "m = (17 * x) * 65536 + (17 * y) * 256 + 17 * z" by (simp add: m_def d)
  have "m < 2 ^ 63" using lt by (simp add: m)
  moreover have "\<forall>c \<in> set ?str. hex_digit c \<noteq> None" using d by simp
  ultimately have "strtol16 ?str = int m" unfolding m_def by (rule strtol16_hex [rotated])
  moreover have "channels (push_bit 8 (long_to_uint32 (int m)) OR 0xFF) = rgba (17 * x) (17 * y) (17 * z) 255"
    using lt by (intro rgb_word [OF _ _ _ m]) simp_all
  ultimately show ?thesis by (simp add: hex_to_color_def h)
qed

lemma hex_to_color_4:
  assumes h: "skip_hash s = [a, b, c, e]"
    and d: "hex_digit a = Some x" "hex_digit b = Some y" "hex_digit c = Some z"
      "hex_digit e = Some u"
  shows "hex_to_color s = rgba (17 * x) (17 * y) (17 * z) (17 * u)"
proof -
  let ?str = "[a, a, b, b, c, c, e, e]"
  define m where "m = strtol_digits 0 ?str"
  note lt = hex_digit_facts(1) [OF d(1)] hex_digit_facts(1) [OF d(2)]
    hex_digit_facts(1) [OF d(3)] hex_digit_facts(1) [OF d(4)]
  have m: "m = (17 * x) * 16777216 + (17 * y) * 65536 + (17 * z) * 256 + 17 * u"
    by (simp add: m_def d)
  have "m < 2 ^ 63" using lt by (simp add: m)
  moreover have "\<forall>c \<in> set ?str. hex_digit c \<noteq> None" using d by simp
  ultimately have "strtol16 ?str = int m" unfolding m_def by (rule strtol16_hex [rotated])
  moreover have "channels (long_to_uint32 (int m)) = rgba (17 * x) (17 * y) (17 * z) (17 * u)"
    using lt by (intro rgba_word [OF _ _ _ _ m]) simp_all
  ultimately show ?thesis by (simp add: hex_to_color_def h)
qed

lemma hex_to_color_6:
  assumes h: "skip_hash s = [a1, a0, b1, b0, c1, c0]"
    and d: "hex_digit a1 = Some x1" "hex_digit a0 = Some x0" "hex_digit b1 = Some y1"
      "hex_digit b0 = Some y0" "hex_digit c1 = Some z1" "hex_digit c0 = Some z0"
  shows "hex_to_color s = rgba (16 * x1 + x0) (16 * y1 + y0) (16 * z1 + z0) 255"
proof -
  define m where "m = strtol_digits 0 (skip_hash s)"
  note lt = hex_digit_facts(1) [OF d(1)] hex_digit_facts(1) [OF d(2)]
    hex_digit_facts(1) [OF d(3)] hex_digit_facts(1) [OF d(4)]
    hex_digit_facts(1) [OF d(5)] hex_digit_facts(1) [OF d(6)]
  have m: "m = (16 * x1 + x0) * 65536 + (16 * y1 + y0) * 256 + (16 * z1 + z0)"
    by (simp add: m_def h d)
  have "m < 2 ^ 63" using lt by (simp add: m)
  moreover have "\<forall>c \<in> set (skip_hash s). hex_digit c \<noteq> None" using d by (simp add: h)
  ultimately have "strtol16 (skip_hash s) = int m"
    unfolding m_def by (rule strtol16_hex [rotated])
  moreover have "channels (push_bit 8 (long_to_uint32 (int m)) OR 0xFF)
      = rgba (16 * x1 + x0) (16 * y1 + y0) (16 * z1 + z0) 255"
    using lt by (intro rgb_word [OF _ _ _ m]) simp_all
  moreover have "length (skip_hash s) = 6" by (simp add: h)
  ultimately show ?thesis by (simp add: hex_to_color_def)
qed

lemma hex_to_color_8:
  assumes h: "skip_hash s = [a1, a0, b1, b0, c1, c0, e1, e0]"
    and d: "hex_digit a1 = Some x1" "hex_digit a0 = Some x0" "hex_digit b1 = Some y1"
      "hex_digit b0 = Some y0" "hex_digit c1 = Some z1" "hex_digit c0 = Some z0"
      "hex_digit e1 = Some u1" "hex_digit e0 = Some u0"
  shows "hex_to_color s = rgba (16 * x1 + x0) (16 * y1 + y0) (16 * z1 + z0) (16 * u1 + u0)"
proof -
  define m where "m = strtol_digits 0 (skip_hash s)"
  note lt = hex_digit_facts(1) [OF d(1)] hex_digit_facts(1) [OF d(2)]
    hex_digit_facts(1) [OF d(3)] hex_digit_facts(1) [OF d(4)]
    hex_digit_facts(1) [OF d(5)] hex_digit_facts(1) [OF d(6)]
    hex_digit_facts(1) [OF d(7)] hex_digit_facts(1) [OF d(8)]
  have m: "m = (16 * x1 + x0) * 16777216 + (16 * y1 + y0) * 65536
      + (16 * z1 + z0) * 256 + (16 * u1 + u0)"
    by (simp add: m_def h d)
  have "m < 2 ^ 63" using lt by (simp add: m)
  moreover have "\<forall>c \<in> set (skip_hash s). hex_digit c \<noteq> None" using d by (simp add: h)
  ultimately have "strtol16 (skip_hash s) = int m"
    unfolding m_def by (rule strtol16_hex [rotated])
  moreover have "channels (long_to_uint32 (int m))
      = rgba (16 * x1 + x0) (16 * y1 + y0) (16 * z1 + z0) (16 * u1 + u0)"
    using lt by (intro rgba_word [OF _ _ _ _ m]) simp_all
  moreover have "length (skip_hash s) = 8" by (simp add: h)
  ultimately show ?thesis by (simp add: hex_to_color_def)
qed

lemma hex_to_color_other:
  assumes "length (skip_hash s) \<notin> {3, 4, 6, 8}"
  shows "hex_to_color s = invalid_color"
  using assms by (simp add: hex_to_color_def)

lemma parse_color_other:
  assumes "length (skip_hash s) \<notin> {3, 4, 6, 8}"
  shows "parse_color s = invalid_color"
proof -
  define ds where "ds = map digit (skip_hash s)"
  have "length ds \<notin> {3, 4, 6, 8}" using assms by (simp add: ds_def)
  then have "(case ds of
        [r, g, b] \<Rightarrow> rgba (17 * r) (17 * g) (17 * b) 255
      | [r, g, b, a] \<Rightarrow> rgba (17 * r) (17 * g) (17 * b) (17 * a)
      | [r1, r0, g1, g0, b1, b0] \<Rightarrow> rgba (16 * r1 + r0) (16 * g1 + g0) (16 * b1 + b0) 255
      | [r1, r0, g1, g0, b1, b0, a1, a0] \<Rightarrow>
          rgba (16 * r1 + r0) (16 * g1 + g0) (16 * b1 + b0) (16 * a1 + a0)
      | _ \<Rightarrow> invalid_color) = invalid_color"
    by (auto split: list.splits)
  then show ?thesis by (simp add: parse_color_eq ds_def)
qed

lemma hex_to_color_hex_digits:
  assumes hex: "\<forall>c \<in> set (skip_hash s). hex_digit c \<noteq> None"
  shows "hex_to_color s = parse_color s"
proof -
  consider "length (skip_hash s) = 3" | "length (skip_hash s) = 4"
    | "length (skip_hash s) = 6" | "length (skip_hash s) = 8"
    | "length (skip_hash s) \<notin> {3, 4, 6, 8}" by auto
  then show ?thesis
  proof cases
    case 1
    then obtain a b c where h: "skip_hash s = [a, b, c]" using len3 by blast
    with hex obtain x y z where
      d: "hex_digit a = Some x" "hex_digit b = Some y" "hex_digit c = Some z" by auto
    have "parse_color s = rgba (17 * x) (17 * y) (17 * z) 255"
      using h d by (simp add: parse_color_eq digit_def)
    with hex_to_color_3 [OF h d] show ?thesis by simp
  next
    case 2
    then obtain a b c e where h: "skip_hash s = [a, b, c, e]" using len4 by blast
    with hex obtain x y z u where
      d: "hex_digit a = Some x" "hex_digit b = Some y" "hex_digit c = Some z"
        "hex_digit e = Some u" by auto
    have "parse_color s = rgba (17 * x) (17 * y) (17 * z) (17 * u)"
      using h d by (simp add: parse_color_eq digit_def)
    with hex_to_color_4 [OF h d] show ?thesis by simp
  next
    case 3
    then obtain a1 a0 b1 b0 c1 c0 where h: "skip_hash s = [a1, a0, b1, b0, c1, c0]"
      using len6 by blast
    with hex obtain x1 x0 y1 y0 z1 z0 where
      d: "hex_digit a1 = Some x1" "hex_digit a0 = Some x0" "hex_digit b1 = Some y1"
        "hex_digit b0 = Some y0" "hex_digit c1 = Some z1" "hex_digit c0 = Some z0" by auto
    have "parse_color s = rgba (16 * x1 + x0) (16 * y1 + y0) (16 * z1 + z0) 255"
      using h d by (simp add: parse_color_eq digit_def)
    with hex_to_color_6 [OF h d] show ?thesis by simp
  next
    case 4
    then obtain a1 a0 b1 b0 c1 c0 e1 e0 where
      h: "skip_hash s = [a1, a0, b1, b0, c1, c0, e1, e0]" using len8 by blast
    with hex obtain x1 x0 y1 y0 z1 z0 u1 u0 where
      d: "hex_digit a1 = Some x1" "hex_digit a0 = Some x0" "hex_digit b1 = Some y1"
        "hex_digit b0 = Some y0" "hex_digit c1 = Some z1" "hex_digit c0 = Some z0"
        "hex_digit e1 = Some u1" "hex_digit e0 = Some u0" by auto
    have "parse_color s
        = rgba (16 * x1 + x0) (16 * y1 + y0) (16 * z1 + z0) (16 * u1 + u0)"
      using h d by (simp add: parse_color_eq digit_def)
    with hex_to_color_8 [OF h d] show ?thesis by simp
  next
    case 5
    then show ?thesis using hex_to_color_other parse_color_other by simp
  qed
qed

lemma hex_to_color_accepted_length:
  assumes "length (skip_hash s) \<in> {3, 4, 6, 8}"
  shows "\<exists>w. hex_to_color s = channels w"
  using assms by (auto simp: hex_to_color_def Let_def)

lemma hex_to_color_nonhex_6:
  assumes len: "length (skip_hash s) = 6"
    and non: "\<forall>c \<in> set (skip_hash s). hex_digit c = None"
  shows "hex_to_color s = rgba 0 0 0 255"
proof -
  have "strtol16 (skip_hash s) = 0" using non by (rule strtol16_nonhex)
  moreover have "channels (push_bit 8 (long_to_uint32 (int 0)) OR 0xFF) = rgba 0 0 0 255"
    by (rule rgb_word [of 0 0 0]) simp_all
  ultimately show ?thesis using len by (simp add: hex_to_color_def)
qed

text \<open>
  C6. For every input string: after an optional leading \<^verbatim>\<open>#\<close>, a string of hex digits (in
  either case) is turned into the normalised quadruple \<open>parse_color\<close> describes (3 digits:
  each duplicated, alpha 1; 4 digits: each duplicated; 6 digits: RRGGBB, alpha 1; 8 digits:
  RRGGBBAA; every channel a byte divided by 255); any other length gives the all \<open>-1\<close>
  sentinel; \<^verbatim>\<open>#F00\<close> gives (1,0,0,1) and \<^verbatim>\<open>00ff0080\<close> gives (0,1,0,128/255).
\<close>

theorem hex_to_color_spec:
  "((\<forall>c \<in> set (skip_hash s). hex_digit c \<noteq> None) \<longrightarrow> hex_to_color s = parse_color s)
   \<and> (length (skip_hash s) \<notin> {3, 4, 6, 8} \<longrightarrow> hex_to_color s = invalid_color)
   \<and> hex_to_color ''#F00'' = \<lparr> color_r = 1, color_g = 0, color_b = 0, color_a = 1 \<rparr>
   \<and> hex_to_color ''00ff0080''
       = \<lparr> color_r = 0, color_g = 1, color_b = 0, color_a = 128 / 255 \<rparr>"
proof (intro conjI impI)
  assume "\<forall>c \<in> set (skip_hash s). hex_digit c \<noteq> None"
  then show "hex_to_color s = parse_color s" by (rule hex_to_color_hex_digits)
next
  assume "length (skip_hash s) \<notin> {3, 4, 6, 8}"
  then show "hex_to_color s = invalid_color" by (rule hex_to_color_other)
next
  show "hex_to_color ''#F00'' = \<lparr> color_r = 1, color_g = 0, color_b = 0, color_a = 1 \<rparr>"
    by (simp add: hex_to_color_def skip_hash_def strtol16_def isspace_def hex_digit_def
        long_to_uint32_def channels_def)
next
  show "hex_to_color ''00ff0080''
      = \<lparr> color_r = 0, color_g = 1, color_b = 0, color_a = 128 / 255 \<rparr>"
    by (simp add: hex_to_color_def skip_hash_def strtol16_def isspace_def hex_digit_def
        long_to_uint32_def channels_def)
qed

theorem hex_to_color_spec_witness:
  "hex_to_color ''#aBc'' = \<lparr> color_r = 2 / 3, color_g = 11 / 15, color_b = 4 / 5, color_a = 1 \<rparr>
   \<and> hex_to_color ''#1234567'' = invalid_color"
proof -
  have "\<forall>c \<in> set (skip_hash ''#aBc''). hex_digit c \<noteq> None"
    by (simp add: skip_hash_def hex_digit_def)
  moreover have "length (skip_hash ''#1234567'') \<notin> {3, 4, 6, 8}"
    by (simp add: skip_hash_def)
  ultimately have "hex_to_color ''#aBc'' = parse_color ''#aBc''"
    and "hex_to_color ''#1234567'' = invalid_color"
    using hex_to_color_spec [of "''#aBc''"] hex_to_color_spec [of "''#1234567''"] by blast+
  then show ?thesis
    by (simp add: parse_color_def digit_def hex_digit_def rgba_def)
qed

text \<open>
  C9. The sentinel depends on the length after the optional \<^verbatim>\<open>#\<close> alone: a string of
  length 3, 4, 6 or 8 always yields a colour with channels in [0,1], whatever its bytes
  are, and never the sentinel; the content is not validated. Six bytes none of which is a
  hex digit yield (0,0,0,1).
\<close>

theorem hex_to_color_length_only:
  "(hex_to_color s = invalid_color \<longleftrightarrow> length (skip_hash s) \<notin> {3, 4, 6, 8})
   \<and> (length (skip_hash s) \<in> {3, 4, 6, 8} \<longrightarrow>
        0 \<le> color_r (hex_to_color s) \<and> color_r (hex_to_color s) \<le> 1
        \<and> 0 \<le> color_g (hex_to_color s) \<and> color_g (hex_to_color s) \<le> 1
        \<and> 0 \<le> color_b (hex_to_color s) \<and> color_b (hex_to_color s) \<le> 1
        \<and> 0 \<le> color_a (hex_to_color s) \<and> color_a (hex_to_color s) \<le> 1)
   \<and> (length (skip_hash s) = 6 \<and> (\<forall>c \<in> set (skip_hash s). hex_digit c = None) \<longrightarrow>
        hex_to_color s = \<lparr> color_r = 0, color_g = 0, color_b = 0, color_a = 1 \<rparr>)"
proof -
  have sentinel: "hex_to_color s = invalid_color \<longleftrightarrow> length (skip_hash s) \<notin> {3, 4, 6, 8}"
  proof
    assume inv: "hex_to_color s = invalid_color"
    show "length (skip_hash s) \<notin> {3, 4, 6, 8}"
    proof
      assume "length (skip_hash s) \<in> {3, 4, 6, 8}"
      then obtain w where "hex_to_color s = channels w"
        using hex_to_color_accepted_length by blast
      with inv channels_valid [of w] show False by simp
    qed
  next
    assume "length (skip_hash s) \<notin> {3, 4, 6, 8}"
    then show "hex_to_color s = invalid_color" by (rule hex_to_color_other)
  qed
  have range: "0 \<le> color_r (hex_to_color s) \<and> color_r (hex_to_color s) \<le> 1
        \<and> 0 \<le> color_g (hex_to_color s) \<and> color_g (hex_to_color s) \<le> 1
        \<and> 0 \<le> color_b (hex_to_color s) \<and> color_b (hex_to_color s) \<le> 1
        \<and> 0 \<le> color_a (hex_to_color s) \<and> color_a (hex_to_color s) \<le> 1"
    if "length (skip_hash s) \<in> {3, 4, 6, 8}"
  proof -
    from that obtain w where w: "hex_to_color s = channels w"
      using hex_to_color_accepted_length by blast
    show ?thesis unfolding w by (rule channels_range)
  qed
  have black: "hex_to_color s = \<lparr> color_r = 0, color_g = 0, color_b = 0, color_a = 1 \<rparr>"
    if "length (skip_hash s) = 6 \<and> (\<forall>c \<in> set (skip_hash s). hex_digit c = None)"
  proof -
    from that have "hex_to_color s = rgba 0 0 0 255" using hex_to_color_nonhex_6 by blast
    then show ?thesis by (simp add: rgba_def)
  qed
  from sentinel range black show ?thesis by blast
qed

theorem hex_to_color_length_only_witness:
  "hex_to_color ''#-q zz+'' = \<lparr> color_r = 0, color_g = 0, color_b = 0, color_a = 1 \<rparr>
   \<and> hex_to_color ''0xyz'' \<noteq> invalid_color
   \<and> hex_to_color ''ghijk'' = invalid_color"
proof -
  have "length (skip_hash ''#-q zz+'') = 6
      \<and> (\<forall>c \<in> set (skip_hash ''#-q zz+''). hex_digit c = None)"
    by (simp add: skip_hash_def hex_digit_def)
  then have "hex_to_color ''#-q zz+'' = \<lparr> color_r = 0, color_g = 0, color_b = 0, color_a = 1 \<rparr>"
    using hex_to_color_length_only [of "''#-q zz+''"] by blast
  moreover have "length (skip_hash ''0xyz'') \<in> {3, 4, 6, 8}" by (simp add: skip_hash_def)
  then have "hex_to_color ''0xyz'' \<noteq> invalid_color"
    using hex_to_color_length_only [of "''0xyz''"] by blast
  moreover have "length (skip_hash ''ghijk'') \<notin> {3, 4, 6, 8}" by (simp add: skip_hash_def)
  then have "hex_to_color ''ghijk'' = invalid_color"
    using hex_to_color_length_only [of "''ghijk''"] by blast
  ultimately show ?thesis by blast
qed

section \<open>Properties of font initialisation\<close>

lemma token_loop_returns: "\<exists>st'. token_loop parse msg tok st = Some st'"
proof (induction parse msg tok st rule: token_loop.induct)
  case (1 parse msg st)
  show ?case by (cases st) auto
next
  case (2 parse msg tok saveptr arr num lg)
  show ?case
  proof (cases "num < length arr")
    case False
    then show ?thesis by simp
  next
    case True
    obtain ok v where p: "parse tok = (ok, v)" by (cases "parse tok")
    have w: "array_write arr num v = Some (arr[num := v])"
      using True by (simp add: array_write_def)
    from "2.IH" [OF True refl p [symmetric] w] obtain st' where
      "token_loop parse msg (strtok_r CHR '','' saveptr)
         (arr[num := v], if ok then num + 1 else num,
          if ok then lg else lg @ [Log_Error (msg tok)]) = Some st'" by blast
    then show ?thesis using True p w by (cases st') auto
  qed
qed

lemma token_loop_full:
  "length arr \<le> num \<Longrightarrow> token_loop parse msg tok (arr, num, lg) = Some (arr, num, lg)"
  by (cases tok) auto

lemma token_loop_bounds:
  "token_loop parse msg tok (arr, num, lg) = Some (arr', num', lg')
   \<Longrightarrow> length arr' = length arr \<and> num \<le> num' \<and> (num \<le> length arr \<longrightarrow> num' \<le> length arr)"
proof (induction parse msg tok "(arr, num, lg)" arbitrary: arr num lg rule: token_loop.induct)
  case (1 parse msg)
  then show ?case by simp
next
  case (2 parse msg tok saveptr arr num lg)
  show ?case
  proof (cases "num < length arr")
    case False
    with "2.prems" show ?thesis by simp
  next
    case True
    obtain ok v where p: "parse tok = (ok, v)" by (cases "parse tok")
    have w: "array_write arr num v = Some (arr[num := v])"
      using True by (simp add: array_write_def)
    from "2.prems" True p w have
      "token_loop parse msg (strtok_r CHR '','' saveptr)
         (arr[num := v], if ok then num + 1 else num,
          if ok then lg else lg @ [Log_Error (msg tok)]) = Some (arr', num', lg')" by simp
    from "2.hyps" [OF True refl p [symmetric] w this] True
    show ?thesis by (auto split: if_splits)
  qed
qed

lemma token_loop_not_None: "token_loop parse msg tok st \<noteq> None"
  using token_loop_returns [of parse msg tok st] by auto

lemma parse_settings_in_bounds:
  "parse_settings env font_variations font_features hb lg \<noteq> Inl Out_Of_Bounds"
  by (simp add: parse_settings_def token_loop_not_None split: option.splits prod.splits)

lemma init_in_bounds:
  "entry_backend_harfbuzz_init env font_name font_size font_variations font_features hb
     \<noteq> Inl Out_Of_Bounds"
  by (simp add: entry_backend_harfbuzz_init_def Let_def parse_settings_in_bounds)

lemma init_exits_when_library_fails:
  assumes "FT_Init_FreeType env \<noteq> 0"
  shows "entry_backend_harfbuzz_init env font_name font_size font_variations font_features hb
     = Inl (Exit_Failure [Log_Debug ''Creating FreeType library.\<newline>'',
         ft_error env ''Error initialising FreeType: '' (FT_Init_FreeType env)])"
  using assms by (simp add: entry_backend_harfbuzz_init_def)

lemma init_exits_when_font_not_opened:
  assumes "FT_Init_FreeType env = 0" and "FT_New_Face env font_name \<noteq> 0"
  shows "entry_backend_harfbuzz_init env font_name font_size font_variations font_features hb
     = Inl (Exit_Failure [Log_Debug ''Creating FreeType library.\<newline>'',
         Log_Debug ''Loading FreeType font.\<newline>'',
         ft_error env ''Error loading font: '' (FT_New_Face env font_name)])"
  using assms by (simp add: entry_backend_harfbuzz_init_def)

lemma init_returns_when_font_opened:
  assumes "FT_Init_FreeType env = 0" and "FT_New_Face env font_name = 0"
  shows "\<exists>hb' lg. entry_backend_harfbuzz_init env font_name font_size font_variations
           font_features hb = Inr (hb', lg)
         \<and> (FT_Set_Char_Size env (scaled_font_size font_size * 64) \<noteq> 0 \<longrightarrow>
              ft_error env ''Error setting font size: ''
                (FT_Set_Char_Size env (scaled_font_size font_size * 64)) \<in> set lg)"
proof -
  define err where "err = FT_Set_Char_Size env (scaled_font_size font_size * 64)"
  define lg1 where "lg1 = [Log_Debug ''Creating FreeType library.\<newline>'',
    Log_Debug ''Loading FreeType font.\<newline>'']
    @ (if err \<noteq> 0 then [ft_error env ''Error setting font size: '' err] else [])"
  obtain vars nvars lg2 where
    v: "token_loop (hb_variation_from_string env) variation_error
          (strtok_r CHR '','' font_variations)
          (hb_variations hb, num_variations hb,
           lg1 @ [Log_Debug ''Creating Harfbuzz font.\<newline>'']
              @ (if font_variations \<noteq> []
                 then [Log_Debug ''Parsing font variations.\<newline>''] else []))
        = Some (vars, nvars, lg2)"
    using token_loop_returns by (metis prod_cases3)
  obtain feats nfeats lg3 where
    f: "token_loop (hb_feature_from_string env) feature_error
          (strtok_r CHR '','' font_features)
          (hb_features hb, num_features hb,
           lg2 @ (if font_features \<noteq> []
                  then [Log_Debug ''Parsing font features.\<newline>''] else []))
        = Some (feats, nfeats, lg3)"
    using token_loop_returns by (metis prod_cases3)
  have keep: "set lg \<subseteq> set lg'"
    if "token_loop parse msg tok (arr, num, lg) = Some (arr', num', lg')"
    for parse :: "string \<Rightarrow> bool \<times> 'x" and msg tok arr num lg arr' num' lg'
    using that
  proof (induction parse msg tok "(arr, num, lg)" arbitrary: arr num lg rule: token_loop.induct)
    case (1 parse msg)
    then show ?case by simp
  next
    case (2 parse msg tok saveptr arr num lg)
    show ?case
    proof (cases "num < length arr")
      case False
      with "2.prems" show ?thesis by simp
    next
      case True
      obtain ok v where p: "parse tok = (ok, v)" by (cases "parse tok")
      have w: "array_write arr num v = Some (arr[num := v])"
        using True by (simp add: array_write_def)
      from "2.prems" True p w have
        "token_loop parse msg (strtok_r CHR '','' saveptr)
           (arr[num := v], if ok then num + 1 else num,
            if ok then lg else lg @ [Log_Error (msg tok)]) = Some (arr', num', lg')" by simp
      from "2.hyps" [OF True refl p [symmetric] w this]
      show ?thesis by (auto split: if_splits)
    qed
  qed
  have "set lg1 \<subseteq> set lg3" using keep [OF v] keep [OF f] by auto
  then have "err \<noteq> 0 \<longrightarrow> ft_error env ''Error setting font size: '' err \<in> set lg3"
    by (auto simp: lg1_def)
  moreover have "entry_backend_harfbuzz_init env font_name font_size font_variations
      font_features hb
    = Inr (hb\<lparr> hb_variations := vars, num_variations := nvars,
               hb_features := feats, num_features := nfeats \<rparr>,
           lg3 @ [Log_Debug ''Creating Harfbuzz buffer.\<newline>'',
                  Log_Debug ''Creating Cairo font.\<newline>''])"
    using assms v f
    by (simp add: entry_backend_harfbuzz_init_def parse_settings_def Let_def lg1_def err_def
        split: if_splits)
  ultimately show ?thesis by (auto simp: err_def)
qed

text \<open>
  C1. The specification says that whenever the font cannot be opened or cannot be sized, \<^verbatim>\<open>init\<close> logs
  the FreeType error string and the process terminates. The two lemmas above give it for
  the library and for \<^verbatim>\<open>FT_New_Face\<close>. For \<^verbatim>\<open>FT_Set_Char_Size\<close> the code logs and goes
  on: with a font that opens and a size call that fails with code 23, \<^verbatim>\<open>init\<close> returns
  normally, the error in its log.
\<close>

theorem init_returns_after_failed_size:
  "entry_backend_harfbuzz_init
     \<lparr> FT_Init_FreeType = 0, FT_New_Face = (\<lambda>name. 0), FT_Set_Char_Size = (\<lambda>size. 23),
       ft_errors = [(0, ''no error''), (23, ''invalid pixel size''), (0, [])],
       hb_variation_from_string = (\<lambda>tok. (True, tok)),
       hb_feature_from_string = (\<lambda>tok. (True, tok)) \<rparr>
     ''/usr/share/fonts/fixed.pcf'' 12 [] []
     \<lparr> hb_variations = replicate 16 [], num_variations = 0,
       hb_features = replicate 16 [], num_features = 0 \<rparr>
   = Inr (\<lparr> hb_variations = replicate 16 [], num_variations = 0,
            hb_features = replicate 16 [], num_features = 0 \<rparr>,
          [Log_Debug ''Creating FreeType library.\<newline>'',
           Log_Debug ''Loading FreeType font.\<newline>'',
           Log_Error ''Error setting font size: invalid pixel size\<newline>'',
           Log_Debug ''Creating Harfbuzz font.\<newline>'',
           Log_Debug ''Creating Harfbuzz buffer.\<newline>'',
           Log_Debug ''Creating Cairo font.\<newline>''])"
  by (simp add: entry_backend_harfbuzz_init_def parse_settings_def strtok_r_def ft_error_def)

text \<open>
  C10. The token loops never write outside their arrays (\<open>array_write\<close> never fails, so
  neither loop nor \<^verbatim>\<open>init\<close> stops with \<open>Out_Of_Bounds\<close>): every write is at an index
  below the capacity. Once the counter has reached the capacity the loop ends whatever
  tokens are left, with the array, the counter and the log unchanged: the remaining
  tokens are dropped and nothing is logged. A counter that starts within the capacity
  stays within it.
\<close>

theorem token_loop_capacity:
  "(\<exists>st'. token_loop parse msg tok (arr, num, lg) = Some st')
   \<and> (length arr \<le> num \<longrightarrow> token_loop parse msg tok (arr, num, lg) = Some (arr, num, lg))
   \<and> (\<forall>arr' num' lg'. token_loop parse msg tok (arr, num, lg) = Some (arr', num', lg')
        \<longrightarrow> length arr' = length arr \<and> (num \<le> length arr \<longrightarrow> num' \<le> length arr))
   \<and> entry_backend_harfbuzz_init env font_name font_size font_variations font_features hb
        \<noteq> Inl Out_Of_Bounds"
  using token_loop_returns [of parse msg tok "(arr, num, lg)"]
    token_loop_full [of arr num parse msg tok lg]
    token_loop_bounds [of parse msg tok arr num lg]
    init_in_bounds [of env font_name font_size font_variations font_features hb]
  by blast

theorem token_loop_capacity_witness:
  "token_loop (\<lambda>tok. (tok \<noteq> ''bad'', tok)) variation_error (Some (''wght=700'', ''bad,ital=1''))
     ([''a'', ''b''], 2, [])
   = Some ([''a'', ''b''], 2, [])
   \<and> token_loop (\<lambda>tok. (tok \<noteq> ''bad'', tok)) variation_error (strtok_r CHR '','' ''x,bad,,y,z'')
     ([[], []], 0, [])
   = Some ([''x'', ''y''], 2, [Log_Error ''Failed to parse font variation \"bad\".\<newline>''])"
proof -
  have "length [''a'', ''b''] \<le> (2::nat)" by simp
  then have "token_loop (\<lambda>tok. (tok \<noteq> ''bad'', tok)) variation_error
      (Some (''wght=700'', ''bad,ital=1'')) ([''a'', ''b''], 2, []) = Some ([''a'', ''b''], 2, [])"
    using token_loop_capacity [of "\<lambda>tok. (tok \<noteq> ''bad'', tok)" variation_error
        "Some (''wght=700'', ''bad,ital=1'')" "[''a'', ''b'']" 2 "[]"]
    by blast
  moreover have "token_loop (\<lambda>tok. (tok \<noteq> ''bad'', tok)) variation_error
      (strtok_r CHR '','' ''x,bad,,y,z'') ([[], []], 0, [])
    = Some ([''x'', ''y''], 2, [Log_Error ''Failed to parse font variation \"bad\".\<newline>''])"
    by (simp add: strtok_r_def array_write_def variation_error_def)
  ultimately show ?thesis by blast
qed

section \<open>Properties of double-precision rounding\<close>

lemma two_powi_less_imp_less:
  assumes "(2::real) powi a < 2 powi b"
  shows "a < b"
proof (rule ccontr)
  assume "\<not> a < b"
  then have "b \<le> a" by simp
  then have "(2::real) powi b \<le> 2 powi a" by (rule power_int_increasing) simp
  with assms show False by simp
qed

lemma binary_exponent_bounds:
  assumes "x \<noteq> 0"
  shows "2 powi binary_exponent x \<le> \<bar>x\<bar>" and "\<bar>x\<bar> < 2 powi (binary_exponent x + 1)"
proof -
  have "2 powi binary_exponent x \<le> \<bar>x\<bar> \<and> \<bar>x\<bar> < 2 powi (binary_exponent x + 1)"
  proof (cases "1 \<le> \<bar>x\<bar>")
    case True
    define n where "n = nat \<lfloor>\<bar>x\<bar>\<rfloor>"
    define f where "f = floorlog 2 n"
    have n1: "1 \<le> n" using True by (simp add: n_def le_nat_iff le_floor_iff)
    have nle: "real n \<le> \<bar>x\<bar>" and nlt: "\<bar>x\<bar> < real n + 1"
      unfolding n_def of_nat_nat [OF zero_le_floor [THEN iffD2, OF abs_ge_zero]]
      by linarith+
    from floorlog_bounds [of n 2] n1 have b: "2 ^ (f - 1) \<le> n" "n < 2 ^ f"
      by (simp_all add: f_def)
    have f1: "1 \<le> f" using b(2) n1 by (cases f) simp_all
    then obtain f' where f': "f = Suc f'" by (cases f) simp_all
    have e: "binary_exponent x = int f - 1"
      using True by (simp add: binary_exponent_def bitlen_def n_def f_def)
    have "int f - 1 = int f'" by (simp add: f')
    then have lo: "(2::real) powi (int f - 1) = 2 ^ (f - 1)"
      by (simp add: f')
    have "int f - 1 + 1 = int f" by simp
    then have hi: "(2::real) powi (int f - 1 + 1) = 2 ^ f"
      by (simp only: power_int_of_nat)
    have "(2::real) ^ (f - 1) \<le> real n" using b(1) by (metis of_nat_le_iff of_nat_numeral of_nat_power)
    moreover have "real n + 1 \<le> 2 ^ f"
    proof -
      have "Suc n \<le> 2 ^ f" using b(2) by simp
      then have "real (Suc n) \<le> real (2 ^ f)" by (rule of_nat_mono)
      then show ?thesis by simp
    qed
    ultimately show ?thesis unfolding e lo hi using nle nlt by linarith
  next
    case False
    define y where "y = 1 / \<bar>x\<bar>"
    define c where "c = nat \<lceil>y\<rceil>"
    define m where "m = floorlog 2 (c - 1)"
    have xp: "0 < \<bar>x\<bar>" using assms by simp
    have y1: "1 < y" using False xp by (simp add: y_def)
    have cy: "y \<le> real c" and yc: "real c - 1 < y"
    proof -
      have "0 \<le> \<lceil>y\<rceil>" using y1 by (simp add: ceiling_le_iff le_ceiling_iff)
      then have "real c = of_int \<lceil>y\<rceil>" by (simp add: c_def)
      then show "y \<le> real c" and "real c - 1 < y" by linarith+
    qed
    have c2: "2 \<le> c"
    proof -
      have "1 < real c" using y1 cy by linarith
      then show ?thesis by simp
    qed
    from floorlog_bounds [of "c - 1" 2] c2 have b: "2 ^ (m - 1) \<le> c - 1" "c - 1 < 2 ^ m"
      by (simp_all add: m_def)
    have m1: "1 \<le> m" using b(2) c2 by (cases m) simp_all
    then obtain m' where m': "m = Suc m'" by (cases m) simp_all
    have "nat (\<lceil>y\<rceil> - 1) = c - 1" by (simp add: c_def nat_diff_distrib')
    then have e: "binary_exponent x = - int m"
      using False by (simp add: binary_exponent_def bitlen_def y_def m_def)
    have lo: "(2::real) powi (- int m) = 1 / 2 ^ m"
      by (simp add: power_int_minus field_simps)
    have hi: "(2::real) powi (- int m + 1) = 1 / 2 ^ (m - 1)"
    proof -
      have "- int m + 1 = - int m'" by (simp add: m')
      then have "(2::real) powi (- int m + 1) = 2 powi (- int m')" by simp
      also have "\<dots> = 1 / 2 ^ m'" by (simp add: power_int_minus field_simps)
      finally show ?thesis by (simp add: m')
    qed
    have "real c \<le> 2 ^ m"
    proof -
      have "c \<le> 2 ^ m" using b(2) by simp
      then have "real c \<le> real (2 ^ m)" by (rule of_nat_mono)
      then show ?thesis by simp
    qed
    then have ym: "y \<le> 2 ^ m" using cy by linarith
    have "(2::real) ^ (m - 1) \<le> real c - 1"
    proof -
      have "real (2 ^ (m - 1)) \<le> real (c - 1)" using b(1) by (rule of_nat_mono)
      then show ?thesis using c2 by (simp add: of_nat_diff)
    qed
    then have my: "2 ^ (m - 1) < y" using yc by linarith
    have xy: "\<bar>x\<bar> = 1 / y" using xp by (simp add: y_def)
    have "1 / 2 ^ m \<le> 1 / y"
      using ym y1 by (intro divide_left_mono) simp_all
    moreover have "1 / y < 1 / 2 ^ (m - 1)"
      using my y1 by (intro divide_strict_left_mono) simp_all
    ultimately show ?thesis unfolding e lo hi xy by simp
  qed
  then show "2 powi binary_exponent x \<le> \<bar>x\<bar>" and "\<bar>x\<bar> < 2 powi (binary_exponent x + 1)"
    by simp_all
qed

lemma binary_exponent_eqI:
  assumes "2 powi k \<le> \<bar>x\<bar>" and "\<bar>x\<bar> < 2 powi (k + 1)"
  shows "binary_exponent x = k"
proof -
  have "(0::real) < 2 powi k" by (rule zero_less_power_int) simp
  with assms(1) have "0 < \<bar>x\<bar>" by linarith
  then have x: "x \<noteq> 0" by simp
  note b = binary_exponent_bounds [OF x]
  have "(2::real) powi k < 2 powi (binary_exponent x + 1)" using assms(1) b(2) by linarith
  then have "k < binary_exponent x + 1" by (rule two_powi_less_imp_less)
  moreover have "(2::real) powi binary_exponent x < 2 powi (k + 1)" using assms(2) b(1) by linarith
  then have "binary_exponent x < k + 1" by (rule two_powi_less_imp_less)
  ultimately show ?thesis by simp
qed

lemma round_half_even_of_int: "round_half_even (of_int k) = k"
  by (simp add: round_half_even_def)

lemma round_half_even_ge:
  assumes "of_int k \<le> x"
  shows "k \<le> round_half_even x"
proof -
  have "k \<le> \<lfloor>x\<rfloor>" using assms by (simp add: le_floor_iff)
  moreover have "\<lfloor>x\<rfloor> \<le> round_half_even x" by (simp add: round_half_even_def Let_def)
  ultimately show ?thesis by linarith
qed

lemma round_half_even_le:
  assumes "x \<le> of_int k"
  shows "round_half_even x \<le> k"
proof (cases "x = of_int \<lfloor>x\<rfloor>")
  case True
  then have "round_half_even x = \<lfloor>x\<rfloor>" by (simp add: round_half_even_def)
  then show ?thesis using assms by (simp add: floor_le_iff)
next
  case False
  then have "of_int \<lfloor>x\<rfloor> < x" by (metis of_int_floor_le order_less_le)
  then have "of_int \<lfloor>x\<rfloor> < (of_int k :: real)" using assms by linarith
  then have "\<lfloor>x\<rfloor> + 1 \<le> k" by simp
  moreover have "round_half_even x \<le> \<lfloor>x\<rfloor> + 1" by (simp add: round_half_even_def Let_def)
  ultimately show ?thesis by linarith
qed

lemma double_spacing_pos: "0 < double_spacing x"
  by (simp add: double_spacing_def)

lemma round_double_multiple:
  assumes "x \<noteq> 0" and "r = of_int k * double_spacing x"
  shows "r \<le> x \<Longrightarrow> r \<le> round_double x" and "x \<le> r \<Longrightarrow> round_double x \<le> r"
proof -
  let ?q = "double_spacing x"
  note q = double_spacing_pos [of x]
  have rd: "round_double x = of_int (round_half_even (x / ?q)) * ?q"
    using assms(1) by (simp add: round_double_def)
  show "r \<le> round_double x" if "r \<le> x"
  proof -
    have "of_int k \<le> x / ?q" using that q assms(2) by (simp add: pos_le_divide_eq)
    then have "k \<le> round_half_even (x / ?q)" by (rule round_half_even_ge)
    then have "(of_int k :: real) \<le> of_int (round_half_even (x / ?q))" by simp
    then show ?thesis unfolding rd assms(2) using q by (simp add: mult_right_mono)
  qed
  show "round_double x \<le> r" if "x \<le> r"
  proof -
    have "x / ?q \<le> of_int k" using that q assms(2) by (simp add: pos_divide_le_eq)
    then have "round_half_even (x / ?q) \<le> k" by (rule round_half_even_le)
    then have "(of_int (round_half_even (x / ?q)) :: real) \<le> of_int k" by simp
    then show ?thesis unfolding rd assms(2) using q by (simp add: mult_right_mono)
  qed
qed

lemma double_spacing_multiple:
  assumes "max (binary_exponent x) (- 1022) \<le> max (binary_exponent r) (- 1022)"
  shows "\<exists>j. double_spacing r = of_int j * double_spacing x"
proof -
  define d where "d = nat (max (binary_exponent r) (- 1022) - max (binary_exponent x) (- 1022))"
  have "max (binary_exponent r) (- 1022) - 52
      = (max (binary_exponent x) (- 1022) - 52) + int d"
    using assms by (simp add: d_def)
  then have "(2::real) powi (max (binary_exponent r) (- 1022) - 52)
      = 2 powi (max (binary_exponent x) (- 1022) - 52) * 2 powi int d"
    by (metis power_int_add zero_neq_numeral)
  then have "double_spacing r = double_spacing x * 2 ^ d"
    unfolding double_spacing_def by (simp only: power_int_of_nat)
  then have "double_spacing r = of_int (2 ^ d) * double_spacing x"
    by simp
  then show ?thesis by blast
qed

lemma power_of_two_multiple:
  "2 powi max (binary_exponent x) (- 1022) = of_int (2 ^ 52) * double_spacing x"
proof -
  have "max (binary_exponent x) (- 1022) = (max (binary_exponent x) (- 1022) - 52) + 52"
    by simp
  then have "(2::real) powi max (binary_exponent x) (- 1022)
      = 2 powi (max (binary_exponent x) (- 1022) - 52) * 2 powi 52"
    by (metis power_int_add zero_neq_numeral)
  then show ?thesis by (simp add: double_spacing_def)
qed

text \<open>Rounding is monotone across every double: a sum on one side of a double is not rounded
  to the other side.\<close>

lemma round_double_bracket:
  assumes "round_double r = r"
  shows "r \<le> x \<Longrightarrow> r \<le> round_double x" and "x \<le> r \<Longrightarrow> round_double x \<le> r"
proof -
  let ?E = "\<lambda>x. max (binary_exponent x) (- 1022)"
  have "(r \<le> x \<longrightarrow> r \<le> round_double x) \<and> (x \<le> r \<longrightarrow> round_double x \<le> r)"
  proof (cases "x = 0")
    case True
    then show ?thesis by (simp add: round_double_def)
  next
    case x: False
    show ?thesis
    proof (cases "r = 0 \<or> ?E x \<le> ?E r")
      case True
      have "\<exists>k. r = of_int k * double_spacing x"
      proof (cases "r = 0")
        case True
        then have "r = of_int 0 * double_spacing x" by simp
        then show ?thesis by blast
      next
        case False
        with True have "?E x \<le> ?E r" by simp
        then obtain j where j: "double_spacing r = of_int j * double_spacing x"
          using double_spacing_multiple by blast
        have "r = of_int (round_half_even (r / double_spacing r)) * double_spacing r"
          using assms False by (simp add: round_double_def)
        then have "r = of_int (round_half_even (r / double_spacing r) * j) * double_spacing x"
          using j by simp
        then show ?thesis by blast
      qed
      then obtain k where "r = of_int k * double_spacing x" by blast
      then show ?thesis using round_double_multiple [OF x] by blast
    next
      case False
      then have r: "r \<noteq> 0" by blast
      from False have "\<not> ?E x \<le> ?E r" by blast
      then have lt: "?E r < ?E x" by (simp only: not_le)
      then have Ex: "?E x = binary_exponent x" by linarith
      have "\<bar>r\<bar> < 2 powi (binary_exponent r + 1)" using binary_exponent_bounds(2) [OF r] .
      also have "\<dots> \<le> 2 powi (?E x)"
        using lt by (intro power_int_increasing) simp_all
      finally have small: "\<bar>r\<bar> < 2 powi (?E x)" .
      have big: "2 powi (?E x) \<le> \<bar>x\<bar>" unfolding Ex using binary_exponent_bounds(1) [OF x] .
      have p: "2 powi (?E x) = of_int (2 ^ 52) * double_spacing x"
        by (rule power_of_two_multiple)
      have n: "- (2 powi (?E x)) = of_int (- (2 ^ 52)) * double_spacing x"
        using p by simp
      show ?thesis
      proof (cases "0 < x")
        case True
        then have "2 powi (?E x) \<le> x" using big by simp
        then have "2 powi (?E x) \<le> round_double x"
          using round_double_multiple(1) [OF x p] by simp
        moreover have "\<not> x \<le> r" using small big True by linarith
        ultimately show ?thesis using small by linarith
      next
        case False
        then have "x \<le> - (2 powi (?E x))" using big x by linarith
        then have "round_double x \<le> - (2 powi (?E x))"
          using round_double_multiple(2) [OF x n] by simp
        moreover have "\<not> r \<le> x" using small big False by linarith
        ultimately show ?thesis using small by linarith
      qed
    qed
  qed
  then show "r \<le> x \<Longrightarrow> r \<le> round_double x" and "x \<le> r \<Longrightarrow> round_double x \<le> r"
    by simp_all
qed

text \<open>A number with a significand of at most 53 bits and an exponent a double can have is a
  double.\<close>

lemma round_double_exact:
  assumes "x = of_int m * 2 powi k" and "\<bar>m\<bar> < 2 ^ 53" and "- 1074 \<le> k"
  shows "round_double x = x"
proof (cases "x = 0")
  case True
  then show ?thesis by (simp add: round_double_def)
next
  case x: False
  let ?E = "max (binary_exponent x) (- 1022)"
  have le: "?E - 52 \<le> k"
  proof (rule ccontr)
    assume "\<not> ?E - 52 \<le> k"
    then have gt: "k + 52 < ?E" by simp
    with assms(3) have E: "?E = binary_exponent x" by linarith
    have "2 powi ?E \<le> \<bar>x\<bar>" unfolding E using binary_exponent_bounds(1) [OF x] .
    also have "\<bar>x\<bar> = \<bar>of_int m\<bar> * 2 powi k" by (simp add: assms(1) abs_mult)
    also have "\<dots> < 2 ^ 53 * 2 powi k"
    proof -
      have "\<bar>of_int m :: real\<bar> < of_int (2 ^ 53)"
        using assms(2) by (metis of_int_abs of_int_less_iff)
      then show ?thesis by (simp add: mult_strict_right_mono)
    qed
    also have "\<dots> = 2 powi (k + 53)"
      by (simp add: power_int_add)
    finally have "?E < k + 53" by (rule two_powi_less_imp_less)
    with gt show False by simp
  qed
  define d where "d = nat (k - (?E - 52))"
  define q where "q = double_spacing x"
  have qpos: "0 < q" unfolding q_def by (rule double_spacing_pos)
  have "k = (?E - 52) + int d" using le by (simp add: d_def)
  then have "(2::real) powi k = 2 powi (?E - 52) * 2 powi int d"
    by (metis power_int_add zero_neq_numeral)
  then have pk: "(2::real) powi k = q * 2 ^ d"
    unfolding q_def double_spacing_def by (simp only: power_int_of_nat)
  have xq: "x = of_int (m * 2 ^ d) * q"
    unfolding assms(1) pk by simp
  then have "x / q = of_int (m * 2 ^ d)"
    using qpos by (simp add: field_simps)
  then have "round_half_even (x / q) = m * 2 ^ d"
    by (simp only: round_half_even_of_int)
  then have "round_double x = of_int (m * 2 ^ d) * q"
    using x unfolding round_double_def q_def by simp
  with xq show ?thesis by simp
qed

lemma round_double_of_nat:
  assumes "n < 2 ^ 53"
  shows "round_double (real n) = real n"
proof (rule round_double_exact [where m = "int n" and k = 0])
  show "real n = of_int (int n) * 2 powi 0" by simp
  show "\<bar>int n\<bar> < 2 ^ 53" using assms by (metis abs_of_nat of_nat_less_iff of_nat_numeral of_nat_power)
  show "- 1074 \<le> (0::int)" by simp
qed

lemma round_double_unat: "round_double (real (unat (w :: 32 word))) = real (unat w)"
proof (rule round_double_of_nat)
  have "unat w < 2 ^ 32" using unsigned_less [of w, where ?'a = nat] by simp
  also have "(2::nat) ^ 32 < 2 ^ 53" by simp
  finally show "unat w < 2 ^ 53" .
qed

lemma round_double_unat_next:
  "round_double (real (unat (w :: 32 word)) + 1 / 2 ^ 21) = real (unat w) + 1 / 2 ^ 21"
proof (rule round_double_exact [where m = "int (unat w) * 2 ^ 21 + 1" and k = "- 21"])
  show "real (unat w) + 1 / 2 ^ 21 = of_int (int (unat w) * 2 ^ 21 + 1) * 2 powi (- 21)"
    by (simp add: power_int_def field_simps)
  have "unat w < 2 ^ 32" using unsigned_less [of w, where ?'a = nat] by simp
  then have "int (unat w) < 2 ^ 32" by (metis of_nat_less_iff of_nat_numeral of_nat_power)
  then show "\<bar>int (unat w) * 2 ^ 21 + 1\<bar> < 2 ^ 53" by simp
  show "- 1074 \<le> (- 21 :: int)" by simp
qed

lemma round_double_numeral:
  assumes "(numeral n :: nat) < 2 ^ 53"
  shows "round_double (numeral n) = numeral n"
  using round_double_of_nat [OF assms] by simp

section \<open>Properties of the overflow test\<close>

lemma clip_boundary_no_wrap:
  assumes "clip_boundary e < 2 ^ 32"
  shows "(if horizontal e then real (unat (clip_x e + clip_width e))
          else real (unat (clip_y e + clip_height e))) = clip_boundary e"
proof -
  have less: "a + b < 2 ^ 32" if "real a + real b < 2 ^ 32" for a b :: nat
  proof -
    have "real (a + b) < real (2 ^ 32)" using that by simp
    then show ?thesis by (simp only: of_nat_less_iff)
  qed
  show ?thesis
  proof (cases "horizontal e")
    case True
    with assms have "unat (clip_x e) + unat (clip_width e) < 2 ^ 32"
      by (intro less) (simp add: clip_boundary_def)
    then have "unat (clip_x e + clip_width e) = unat (clip_x e) + unat (clip_width e)"
      by (simp add: unat_word_ariths)
    then show ?thesis using True by (simp add: clip_boundary_def)
  next
    case False
    with assms have "unat (clip_y e) + unat (clip_height e) < 2 ^ 32"
      by (intro less) (simp add: clip_boundary_def)
    then have "unat (clip_y e + clip_height e) = unat (clip_y e) + unat (clip_height e)"
      by (simp add: unat_word_ariths)
    then show ?thesis using False by (simp add: clip_boundary_def)
  qed
qed

lemma size_overflows_iff:
  assumes "clip_boundary e < 2 ^ 32"
  shows "size_overflows e cr w h \<longleftrightarrow> round_double (far_edge e cr w h) > clip_boundary e"
  using clip_boundary_no_wrap [OF assms]
  by (cases "horizontal e") (simp_all add: size_overflows_def far_edge_def)

lemma clip_boundary_double:
  assumes "clip_boundary e < 2 ^ 32"
  shows "round_double (clip_boundary e) = clip_boundary e"
    and "round_double (clip_boundary e + 1 / 2 ^ 21) = clip_boundary e + 1 / 2 ^ 21"
proof -
  obtain u :: "32 word" where u: "clip_boundary e = real (unat u)"
    using clip_boundary_no_wrap [OF assms] by (cases "horizontal e") (simp_all, metis+)
  show "round_double (clip_boundary e) = clip_boundary e"
    unfolding u by (rule round_double_unat)
  show "round_double (clip_boundary e + 1 / 2 ^ 21) = clip_boundary e + 1 / 2 ^ 21"
    unfolding u by (rule round_double_unat_next)
qed

lemma round_double_example: "round_double (1 / 2 ^ 60 + 10) = 10"
proof -
  have e: "binary_exponent (1 / 2 ^ 60 + 10) = 3"
    by (rule binary_exponent_eqI) simp_all
  have q: "double_spacing (1 / 2 ^ 60 + 10) = 1 / 2 ^ 49"
    unfolding double_spacing_def e by (simp add: power_int_minus field_simps)
  have r: "round_half_even ((1 / 2 ^ 60 + 10) / (1 / 2 ^ 49)) = 10 * 2 ^ 49"
    by (simp add: round_half_even_def Let_def)
  show ?thesis
    unfolding round_double_def q r by simp
qed

text \<open>
  C2 as stated fails for an excess that the addition rounds away. With the clip boundary at
  10, the origin at \<open>1 / 2 ^ 60\<close> and an extent of 10, the far edge is beyond the boundary
  by \<open>1 / 2 ^ 60\<close>; the double nearest to the sum is 10, and the test is false.
\<close>

theorem size_overflows_rounding_counterexample:
  "far_edge (example_entry\<lparr> clip_height := 10 \<rparr>)
       (example_canvas\<lparr> matrix := (0, 1 / 2 ^ 60) \<rparr>) 0 10
     = clip_boundary (example_entry\<lparr> clip_height := 10 \<rparr>) + 1 / 2 ^ 60
   \<and> \<not> size_overflows (example_entry\<lparr> clip_height := 10 \<rparr>)
         (example_canvas\<lparr> matrix := (0, 1 / 2 ^ 60) \<rparr>) 0 10"
proof -
  have "(11529215046068469761 / 1152921504606846976 :: real) = 1 / 2 ^ 60 + 10" by simp
  then have "round_double (11529215046068469761 / 1152921504606846976) = 10"
    by (simp only: round_double_example)
  then show ?thesis
    by (simp add: far_edge_def clip_boundary_def size_overflows_def example_entry_def)
qed

text \<open>
  C2, as the code has it. For every clip rectangle whose \<open>clip_origin + clip_size\<close> is
  below \<open>2 ^ 32\<close>, every origin and every extent: the overflow test is false when the origin
  coordinate plus the extent equals \<open>clip_origin + clip_size\<close> on the scroll axis (the x
  axis of a horizontal list, the y axis otherwise), or is below it. It is true when the sum
  is beyond the boundary by \<open>1 / 2 ^ 21\<close> or more, so by one unit or more; and when it is
  beyond it by any positive amount and is itself a double. In general the test is true
  exactly when the sum as the double addition rounds it is beyond the boundary.
\<close>

theorem size_overflows_boundary:
  assumes "clip_boundary e < 2 ^ 32"
  shows "(far_edge e cr w h = clip_boundary e \<longrightarrow> \<not> size_overflows e cr w h)
   \<and> (far_edge e cr w h \<le> clip_boundary e \<longrightarrow> \<not> size_overflows e cr w h)
   \<and> (\<forall>d \<ge> 1 / 2 ^ 21. far_edge e cr w h = clip_boundary e + d \<longrightarrow> size_overflows e cr w h)
   \<and> (\<forall>d > 0. far_edge e cr w h = clip_boundary e + d
          \<and> round_double (far_edge e cr w h) = far_edge e cr w h
        \<longrightarrow> size_overflows e cr w h)
   \<and> (size_overflows e cr w h \<longleftrightarrow> round_double (far_edge e cr w h) > clip_boundary e)
   \<and> far_edge e cr w h
       = (if horizontal e then fst (matrix cr) + real (unat w) else snd (matrix cr) + real (unat h))
   \<and> clip_boundary e
       = (if horizontal e then real (unat (clip_x e)) + real (unat (clip_width e))
          else real (unat (clip_y e)) + real (unat (clip_height e)))"
proof -
  note iff = size_overflows_iff [OF assms, of cr w h]
  note dbl = clip_boundary_double [OF assms]
  have below: "\<not> size_overflows e cr w h" if "far_edge e cr w h \<le> clip_boundary e"
    using round_double_bracket(2) [OF dbl(1) that] iff by simp
  have equal: "\<not> size_overflows e cr w h" if "far_edge e cr w h = clip_boundary e"
    using below that by simp
  have beyond: "size_overflows e cr w h"
    if "1 / 2 ^ 21 \<le> d" and "far_edge e cr w h = clip_boundary e + d" for d
  proof -
    have "clip_boundary e + 1 / 2 ^ 21 \<le> far_edge e cr w h" using that by simp
    then have "clip_boundary e + 1 / 2 ^ 21 \<le> round_double (far_edge e cr w h)"
      by (rule round_double_bracket(1) [OF dbl(2)])
    then have "clip_boundary e < round_double (far_edge e cr w h)"
      by (simp add: add_strict_increasing2 less_le_trans [rotated])
    then show ?thesis using iff by simp
  qed
  have exact: "size_overflows e cr w h"
    if "0 < d" and "far_edge e cr w h = clip_boundary e + d"
      and "round_double (far_edge e cr w h) = far_edge e cr w h" for d
    using that iff by simp
  have defs: "far_edge e cr w h
       = (if horizontal e then fst (matrix cr) + real (unat w) else snd (matrix cr) + real (unat h))"
    "clip_boundary e
       = (if horizontal e then real (unat (clip_x e)) + real (unat (clip_width e))
          else real (unat (clip_y e)) + real (unat (clip_height e)))"
    by (simp_all add: far_edge_def clip_boundary_def)
  from equal below beyond exact iff defs show ?thesis by blast
qed

theorem size_overflows_boundary_witness:
  "\<not> size_overflows example_entry (example_canvas\<lparr> matrix := (0, 40) \<rparr>) 0 10
   \<and> size_overflows example_entry (example_canvas\<lparr> matrix := (0, 40 + 1 / 4) \<rparr>) 0 10"
proof -
  have b: "clip_boundary example_entry < 2 ^ 32"
    by (simp add: clip_boundary_def example_entry_def)
  have eq: "far_edge example_entry (example_canvas\<lparr> matrix := (0, 40) \<rparr>) 0 10
      = clip_boundary example_entry"
    by (simp add: far_edge_def clip_boundary_def example_entry_def)
  have gt: "far_edge example_entry (example_canvas\<lparr> matrix := (0, 40 + 1 / 4) \<rparr>) 0 10
      = clip_boundary example_entry + 1 / 4"
    by (simp add: far_edge_def clip_boundary_def example_entry_def)
  have "\<not> size_overflows example_entry (example_canvas\<lparr> matrix := (0, 40) \<rparr>) 0 10"
    using size_overflows_boundary
      [OF b, of "example_canvas\<lparr> matrix := (0, 40) \<rparr>" 0 10] eq by blast
  moreover have beyond: "\<forall>d \<ge> 1 / 2 ^ 21.
      far_edge example_entry (example_canvas\<lparr> matrix := (0, 40 + 1 / 4) \<rparr>) 0 10
        = clip_boundary example_entry + d
      \<longrightarrow> size_overflows example_entry (example_canvas\<lparr> matrix := (0, 40 + 1 / 4) \<rparr>) 0 10"
    using size_overflows_boundary
      [OF b, of "example_canvas\<lparr> matrix := (0, 40 + 1 / 4) \<rparr>" 0 10] by blast
  have "size_overflows example_entry (example_canvas\<lparr> matrix := (0, 40 + 1 / 4) \<rparr>) 0 10"
    using beyond [rule_format, of "1 / 4"] gt by simp
  ultimately show ?thesis by blast
qed

section \<open>Properties of the masked input\<close>









section \<open>Properties of the rendering helpers\<close>

lemma emit_fields [simp]:
  "matrix (emit p cr) = matrix cr" "source (emit p cr) = source cr" "saved (emit p cr) = saved cr"
  by (simp_all add: emit_def split: list.splits)

lemma render_text_eq:
  "render_text cr hb t
     = (emit (Show_Glyphs t (source cr) (fst (matrix cr), snd (matrix cr) + font_ascent hb)) cr,
        measured hb t)"
  by (cases "groups cr")
     (simp_all add: render_text_def Let_def cairo_save_def cairo_translate_def cairo_show_glyphs_def
        cairo_restore_def emit_def measured_def)

lemma background_box_eq:
  "background_box cr hb theme extents
     = emit (Fill_Rounded_Rectangle
          (double_to_uint32 (of_int \<lceil>width extents + dir_left (padding theme) + dir_right (padding theme)\<rceil>))
          (double_to_uint32 (of_int \<lceil>font_height hb + dir_top (padding theme) + dir_bottom (padding theme)\<rceil>))
          (background_corner_radius theme) (background_color theme)
          (fst (matrix cr) + of_int \<lfloor>- dir_left (padding theme) + x_bearing extents\<rfloor>,
           snd (matrix cr) + - dir_top (padding theme))) cr"
  by (cases "groups cr")
     (simp_all add: background_box_def Let_def cairo_save_def cairo_translate_def
        cairo_set_source_rgba_def rounded_rectangle_def cairo_restore_def emit_def)

lemma render_text_themed_fields [simp]:
  "matrix (fst (render_text_themed cr hb t th)) = matrix cr"
  "saved (fst (render_text_themed cr hb t th)) = saved cr"
  "source (fst (render_text_themed cr hb t th)) = foreground_color th"
  "snd (render_text_themed cr hb t th) = measured hb t"
  by (simp_all add: render_text_themed_def render_text_eq background_box_eq Let_def
      cairo_set_source_rgba_def)

section \<open>Properties of the highlighted row\<close>

lemma highlight_pass_snd:
  "snd (highlight_pass e hb cr (pre, plen, m, p))
     = (let run = (case m of
                     None \<Rightarrow> measured hb pre
                   | Some mt \<Rightarrow> if plen = 0 then measured hb mt
                               else add_extents (measured hb pre) (measured hb mt))
        in case p of None \<Rightarrow> run | Some pt \<Rightarrow> add_extents run (measured hb pt))"
  by (simp add: highlight_pass_def render_text_eq Let_def split: option.splits)

lemma highlight_pass_fields [simp]:
  "matrix (fst (highlight_pass e hb cr segs)) = matrix cr"
  "saved (fst (highlight_pass e hb cr segs)) = saved cr"
  by (cases segs; simp add: highlight_pass_def render_text_eq Let_def cairo_save_def
        cairo_restore_def cairo_set_source_rgba_def cairo_translate_def split: option.splits)+

lemma background_box_fields [simp]:
  "matrix (background_box cr hb th x) = matrix cr"
  "saved (background_box cr hb th x) = saved cr"
  by (simp_all add: background_box_eq)

lemma render_highlighted_eq:
  "render_highlighted e hb cr result
     = (case split_match e hb result of
          None \<Rightarrow> None
        | Some segs \<Rightarrow>
            Some (if color_a (background_color (selection_theme e)) = 0
                  then highlight_pass e hb cr segs
                  else highlight_pass e hb
                         (background_box (fst (highlight_pass e hb cr segs)) hb (selection_theme e)
                            (snd (highlight_pass e hb cr segs))) segs))"
  by (simp add: render_highlighted_def Let_def case_prod_beta split: option.splits)

lemma render_highlighted_fields:
  assumes "render_highlighted e hb cr result = Some (cr', ext)"
  shows "matrix cr' = matrix cr" and "saved cr' = saved cr"
proof -
  from assms obtain segs where "split_match e hb result = Some segs"
    by (auto simp: render_highlighted_eq split: option.splits)
  with assms have
    "fst (if color_a (background_color (selection_theme e)) = 0
          then highlight_pass e hb cr segs
          else highlight_pass e hb
                 (background_box (fst (highlight_pass e hb cr segs)) hb (selection_theme e)
                    (snd (highlight_pass e hb cr segs))) segs) = cr'"
    by (simp add: render_highlighted_eq)
  then have "matrix cr' = matrix cr \<and> saved cr' = saved cr" by auto
  then show "matrix cr' = matrix cr" and "saved cr' = saved cr" by simp_all
qed

lemma split_match_prematch:
  assumes "split_match e hb result = Some (pre, plen, Some mt, p)"
  shows "pre = [] \<longleftrightarrow> plen = 0"
  using assms
  by (auto simp: split_match_def Let_def split: if_splits option.splits)

lemma split_match_no_match:
  assumes "split_match e hb result = Some (pre, plen, None, p)"
  shows "pre = result \<and> p = None"
  using assms
  by (auto simp: split_match_def Let_def split: if_splits option.splits)

lemma add_extents_compose: "add_extents x y = compose_extents x y"
  by (simp add: add_extents_def compose_extents_def)

text \<open>
  C5. The extents the highlighted row ends with are the combined extents of its segments:
  without a match segment the segment is the whole result and the extents are its own; with a
  match and an empty prematch they are the match segment's; otherwise the width is
  \<open>prematch.x_advance - prematch.x_bearing + match.x_bearing + match.width\<close> and the advance
  is the sum of the two advances; a postmatch segment is composed onto the running extents
  by the same rule.
\<close>

theorem highlight_combined_extents:
  assumes "split_match e hb result = Some (prematch, prematch_len, m, p)"
  shows "(\<exists>cr'. render_highlighted e hb cr result = Some (cr', combined_extents hb prematch m p))
    \<and> (m = None \<longrightarrow> combined_extents hb prematch m p = measured hb result)
    \<and> (\<forall>mt. m = Some mt \<and> prematch = [] \<and> p = None \<longrightarrow>
          combined_extents hb prematch m p = measured hb mt)
    \<and> (\<forall>mt. m = Some mt \<and> prematch \<noteq> [] \<and> p = None \<longrightarrow>
          width (combined_extents hb prematch m p)
            = x_advance (measured hb prematch) - x_bearing (measured hb prematch)
              + x_bearing (measured hb mt) + width (measured hb mt)
        \<and> x_advance (combined_extents hb prematch m p)
            = x_advance (measured hb prematch) + x_advance (measured hb mt))
    \<and> (\<forall>pt. p = Some pt \<longrightarrow>
          width (combined_extents hb prematch m p)
            = x_advance (combined_extents hb prematch m None)
              - x_bearing (combined_extents hb prematch m None)
              + x_bearing (measured hb pt) + width (measured hb pt)
        \<and> x_advance (combined_extents hb prematch m p)
            = x_advance (combined_extents hb prematch m None) + x_advance (measured hb pt))"
proof -
  have ext: "snd (highlight_pass e hb c (prematch, prematch_len, m, p))
      = combined_extents hb prematch m p" for c
  proof (cases m)
    case None
    with assms have "p = None" using split_match_no_match by blast
    with None show ?thesis by (simp add: highlight_pass_snd combined_extents_def)
  next
    case (Some mt)
    with assms have "prematch = [] \<longleftrightarrow> prematch_len = 0" using split_match_prematch by blast
    with Some show ?thesis
      by (cases p)
         (simp_all add: highlight_pass_snd combined_extents_def add_extents_compose Let_def)
  qed
  have "\<exists>cr'. render_highlighted e hb cr result = Some (cr', combined_extents hb prematch m p)"
    using assms ext by (simp add: render_highlighted_eq) (metis prod.collapse)
  moreover have "m = None \<longrightarrow> combined_extents hb prematch m p = measured hb result"
  proof
    assume "m = None"
    with assms have "prematch = result" using split_match_no_match by blast
    with \<open>m = None\<close> show "combined_extents hb prematch m p = measured hb result"
      by (simp add: combined_extents_def)
  qed
  moreover have "\<forall>pt. p = Some pt \<longrightarrow> m \<noteq> None"
    using assms split_match_no_match by (cases m) auto
  ultimately show ?thesis
    by (auto simp: combined_extents_def compose_extents_def Let_def split: option.splits)
qed

section \<open>Properties of the result loop\<close>

lemma row_theme_code:
  "(if i = selection e then selection_theme e
    else if (i + first_result e) mod 2 \<noteq> 0 then alternate_result_theme e
    else default_result_theme e) = row_theme e i"
  by (auto simp: row_theme_def even_iff_mod_2_eq_zero)

lemma draw_row_highlighted:
  assumes "highlighted e i"
  shows "draw_row e hb (row_theme e i) i (cr, ext)
     = render_highlighted e hb (advance_row e hb cr ext) (results e ! (i + first_result e))"
  using assms by (simp add: draw_row_def row_theme_def highlighted_def Let_def)

lemma loop_body_past_end:
  assumes "length (results e) \<le> i + first_result e"
  shows "loop_body e hb i (cr, ext, d) = Break (advance_row e hb cr ext, ext, d)"
  using assms by (simp add: loop_body_def advance_row_def Let_def)

lemma loop_body_fixed:
  assumes "num_results e \<noteq> 0" and "i < unat (num_results e)"
    and "i + first_result e < length (results e)"
  shows "loop_body e hb i (cr, ext, d)
     = (case draw_row e hb (row_theme e i) i (cr, ext) of
          None \<Rightarrow> Fault
        | Some (cr', ext') \<Rightarrow> Continue (cr', ext', d))"
proof (cases "highlighted e i")
  case True
  then show ?thesis
    using assms
    by (simp add: draw_row_highlighted)
       (simp add: loop_body_def advance_row_def highlighted_def Let_def)
next
  case False
  then show ?thesis
    using assms
    by (simp add: loop_body_def draw_row_def advance_row_def Let_def row_theme_code word_gt_0
        case_prod_beta) (auto simp: highlighted_def)
qed

lemma loop_body_vertical:
  assumes "num_results e = 0" and "\<not> horizontal e"
    and "i + first_result e < length (results e)"
  shows "loop_body e hb i (cr, ext, d)
     = (if size_overflows e (advance_row e hb cr ext) 0 0
        then Break (advance_row e hb cr ext, ext, d)
        else if \<not> highlighted e i
                \<and> size_overflows e (advance_row e hb cr ext) 0 (double_to_uint32 (font_height hb))
        then Break (advance_row e hb cr ext, ext, i)
        else (case draw_row e hb (row_theme e i) i (cr, ext) of
                None \<Rightarrow> Fault
              | Some (cr', ext') \<Rightarrow> Continue (cr', ext', d)))"
proof (cases "highlighted e i")
  case True
  then show ?thesis
    using assms
    by (simp add: draw_row_highlighted)
       (simp add: loop_body_def advance_row_def highlighted_def Let_def)
next
  case False
  then show ?thesis
    using assms
    by (simp add: loop_body_def draw_row_def advance_row_def Let_def row_theme_code
        case_prod_beta) (auto simp: highlighted_def)
qed

lemma loop_body_Continue:
  assumes "loop_body e hb i (cr, ext, d) = Continue st'"
  shows "\<exists>cr' ext'. st' = (cr', ext', d)
           \<and> draw_row e hb (row_theme e i) i (cr, ext) = Some (cr', ext')"
proof (cases "highlighted e i")
  case True
  with assms show ?thesis
    by (simp add: draw_row_highlighted)
       (auto simp: loop_body_def advance_row_def highlighted_def Let_def
          split: if_splits option.splits)
next
  case False
  with assms show ?thesis
    by (auto simp: loop_body_def draw_row_def advance_row_def Let_def row_theme_code
        case_prod_beta highlighted_def prod_eq_iff word_gt_0 split: if_splits)
qed

lemma draw_rows_append:
  "draw_rows e hb (xs @ ys) st
     = (case draw_rows e hb xs st of None \<Rightarrow> None | Some st' \<Rightarrow> draw_rows e hb ys st')"
  by (induction xs arbitrary: st) (auto split: option.splits)


text \<open>
  C7. Every row the loop draws is drawn with the theme the rule gives: an iteration that
  goes on to the next row has done exactly what \<open>draw_row\<close> does with \<open>row_theme\<close>. That
  theme is the selection theme at the selected position, and otherwise follows the parity of
  the absolute index \<open>i + first_result\<close>, odd for the alternate theme and even for the
  default one; so a result that is not selected keeps its theme when the list is scrolled.
\<close>

theorem row_theme_rule:
  "(loop_body e hb i (cr, extents, drawn) = Continue st' \<longrightarrow>
      (\<exists>cr' ext'. st' = (cr', ext', drawn)
         \<and> draw_row e hb (row_theme e i) i (cr, extents) = Some (cr', ext')))
   \<and> row_theme e i
       = (if i = selection e then selection_theme e
          else if odd (i + first_result e) then alternate_result_theme e
          else default_result_theme e)
   \<and> (i \<noteq> selection e \<and> j \<noteq> selection e' \<and> i + first_result e = j + first_result e'
        \<and> default_result_theme e' = default_result_theme e
        \<and> alternate_result_theme e' = alternate_result_theme e
      \<longrightarrow> row_theme e' j = row_theme e i)"
  using loop_body_Continue [of e hb i cr extents drawn st']
  by (auto simp: row_theme_def)







lemma draw_row_returns:
  assumes "highlighted e i \<longrightarrow> split_match e hb (results e ! (i + first_result e)) \<noteq> None"
  shows "draw_row e hb (row_theme e i) i st \<noteq> None"
proof (cases "highlighted e i")
  case True
  with assms show ?thesis
    by (cases st) (auto simp: draw_row_highlighted render_highlighted_eq split: option.splits)
next
  case False
  then show ?thesis by (cases st) (simp add: draw_row_def Let_def case_prod_beta)
qed




section \<open>The vertical auto-fit loop, for sums that are exact\<close>

lemma draw_row_fields_vertical:
  assumes "draw_row e hb th i (cr, ext) = Some (cr', ext')" and "\<not> horizontal e"
  shows "matrix cr' = (fst (matrix cr), snd (matrix cr) + (font_height hb + result_spacing e))"
    and "saved cr' = saved cr"
proof -
  let ?cr = "cairo_translate cr 0 (font_height hb + result_spacing e)"
  have "matrix cr' = matrix ?cr \<and> saved cr' = saved ?cr"
  proof (cases "highlighted e i")
    case True
    with assms have "render_highlighted (e\<lparr> selection_theme := th \<rparr>) hb ?cr
        (results e ! (i + first_result e)) = Some (cr', ext')"
      by (simp add: draw_row_def advance_row_def Let_def)
    then show ?thesis using render_highlighted_fields by blast
  next
    case False
    with assms have "render_text_themed ?cr hb (results e ! (i + first_result e)) th = (cr', ext')"
      by (simp add: draw_row_def advance_row_def Let_def)
    then have "cr' = fst (render_text_themed ?cr hb (results e ! (i + first_result e)) th)"
      by simp
    then show ?thesis by simp
  qed
  then show "matrix cr' = (fst (matrix cr), snd (matrix cr) + (font_height hb + result_spacing e))"
    and "saved cr' = saved cr"
    by (simp_all add: cairo_translate_def)
qed

lemma draw_rows_saved_vertical:
  assumes "draw_rows e hb xs (cr, ext) = Some (cr', ext')" and "\<not> horizontal e"
  shows "saved cr' = saved cr"
  using assms
proof (induction xs arbitrary: cr ext)
  case Nil
  then show ?case by simp
next
  case (Cons i xs)
  from Cons.prems obtain cr1 ext1 where
    r: "draw_row e hb (row_theme e i) i (cr, ext) = Some (cr1, ext1)"
    and rest: "draw_rows e hb xs (cr1, ext1) = Some (cr', ext')"
    by (auto split: option.splits)
  from Cons.IH [OF rest Cons.prems(2)] draw_row_fields_vertical(2) [OF r Cons.prems(2)]
  show ?case by simp
qed

lemma whole_height:
  assumes "font_height hb = real H" and "H < 2 ^ 32"
  shows "real (unat (double_to_uint32 (font_height hb))) = font_height hb"
proof -
  have "double_to_uint32 (real H) = (of_nat H :: 32 word)"
    by (simp add: double_to_uint32_def)
  then show ?thesis using assms by (simp add: unat_of_nat)
qed

lemma vertical_test:
  assumes "\<not> horizontal e" and "font_height hb = real H" and "H < 2 ^ 32"
    and "snd (matrix cr) = y + real i * (font_height hb + result_spacing e)"
    and exact: "round_double (row_origin e hb y i) = row_origin e hb y i"
      "round_double (row_origin e hb y i + font_height hb) = row_origin e hb y i + font_height hb"
  shows "(\<not> size_overflows e (advance_row e hb cr ext) 0 0
          \<and> (highlighted e i
              \<or> \<not> size_overflows e (advance_row e hb cr ext) 0 (double_to_uint32 (font_height hb))))
     \<longleftrightarrow> row_fits e hb y i"
proof -
  have o: "snd (matrix (advance_row e hb cr ext)) = row_origin e hb y i"
    using assms(1,4) by (simp add: advance_row_def cairo_translate_def row_origin_def algebra_simps)
  have h: "real (unat (double_to_uint32 (font_height hb))) = font_height hb"
    using assms(2,3) by (rule whole_height)
  have h': "(unsigned (double_to_uint32 (font_height hb)) :: real) = font_height hb"
    using h by simp
  have "0 \<le> font_height hb" using assms(2) by simp
  then show ?thesis
    using assms(1) by (auto simp: size_overflows_def row_fits_def o h' exact)
qed

lemma results_loop_vertical:
  assumes mode: "num_results e = 0" "\<not> horizontal e"
    and whole: "font_height hb = real H" "H < 2 ^ 32"
    and exact: "\<And>j. j < n \<Longrightarrow>
      round_double (row_origin e hb y j) = row_origin e hb y j
      \<and> round_double (row_origin e hb y j + font_height hb)
          = row_origin e hb y j + font_height hb"
  shows "i \<le> n \<Longrightarrow> snd (matrix cr) = y + real i * (font_height hb + result_spacing e) \<Longrightarrow>
    (case draw_rows e hb
            (takeWhile (\<lambda>j. j + first_result e < length (results e) \<and> row_fits e hb y j) [i..<n])
            (cr, ext) of
       None \<Rightarrow> results_loop e hb n i (cr, ext, d) = None
     | Some (cr', ext') \<Rightarrow>
         (\<exists>mx my d'. results_loop e hb n i (cr, ext, d)
            = Some (i + length (takeWhile
                      (\<lambda>j. j + first_result e < length (results e) \<and> row_fits e hb y j) [i..<n]),
                    cr'\<lparr> matrix := (mx, my) \<rparr>, ext', d')))"
proof (induction "n - i" arbitrary: i cr ext)
  case 0
  then have "i = n" by simp
  then have "results_loop e hb n i (cr, ext, d)
      = Some (i, cr\<lparr> matrix := (fst (matrix cr), snd (matrix cr)) \<rparr>, ext, d)"
    by simp
  with \<open>i = n\<close> show ?case by (simp del: prod.collapse) blast
next
  case (Suc k)
  let ?P = "\<lambda>j. j + first_result e < length (results e) \<and> row_fits e hb y j"
  from Suc have lt: "i < n" by simp
  then have upt: "[i..<n] = i # [Suc i..<n]" by (simp add: upt_conv_Cons)
  have adv: "advance_row e hb cr ext
      = cr\<lparr> matrix := (fst (matrix cr), snd (matrix cr) + (font_height hb + result_spacing e)) \<rparr>"
    using mode(2) by (simp add: advance_row_def cairo_translate_def)
  from exact [OF lt] have ex: "round_double (row_origin e hb y i) = row_origin e hb y i"
    "round_double (row_origin e hb y i + font_height hb) = row_origin e hb y i + font_height hb"
    by simp_all
  show ?case
  proof (cases "?P i")
    case False
    have "\<exists>d'. loop_body e hb i (cr, ext, d) = Break (advance_row e hb cr ext, ext, d')"
    proof (cases "length (results e) \<le> i + first_result e")
      case True
      then show ?thesis by (simp add: loop_body_past_end)
    next
      case inside: False
      with False have "\<not> row_fits e hb y i" by simp
      then have "\<not> (\<not> size_overflows e (advance_row e hb cr ext) 0 0
          \<and> (highlighted e i
              \<or> \<not> size_overflows e (advance_row e hb cr ext) 0
                    (double_to_uint32 (font_height hb))))"
        using vertical_test [OF mode(2) whole Suc.prems(2) ex] by simp
      then show ?thesis
        using inside mode by (auto simp: loop_body_vertical)
    qed
    then obtain d' where "loop_body e hb i (cr, ext, d) = Break (advance_row e hb cr ext, ext, d')"
      by blast
    then have "results_loop e hb n i (cr, ext, d) = Some (i, advance_row e hb cr ext, ext, d')"
      using lt by simp
    then show ?thesis using False upt adv by simp blast
  next
    case True
    then have "\<not> size_overflows e (advance_row e hb cr ext) 0 0
          \<and> (highlighted e i
              \<or> \<not> size_overflows e (advance_row e hb cr ext) 0
                    (double_to_uint32 (font_height hb)))"
      using vertical_test [OF mode(2) whole Suc.prems(2) ex] by simp
    then have body: "loop_body e hb i (cr, ext, d)
        = (case draw_row e hb (row_theme e i) i (cr, ext) of
             None \<Rightarrow> Fault | Some (cr', ext') \<Rightarrow> Continue (cr', ext', d))"
      using True mode by (auto simp: loop_body_vertical)
    show ?thesis
    proof (cases "draw_row e hb (row_theme e i) i (cr, ext)")
      case None
      then show ?thesis using True upt body lt by simp
    next
      case (Some st1)
      obtain cr1 ext1 where st1: "st1 = (cr1, ext1)" by (cases st1)
      have "snd (matrix cr1) = y + real (Suc i) * (font_height hb + result_spacing e)"
        using draw_row_fields_vertical(1) [OF Some [unfolded st1] mode(2)] Suc.prems(2)
        by (simp add: algebra_simps)
      moreover have "k = n - Suc i" and "Suc i \<le> n" using Suc.hyps(2) lt by simp_all
      ultimately have IH: "case draw_rows e hb (takeWhile ?P [Suc i..<n]) (cr1, ext1) of
           None \<Rightarrow> results_loop e hb n (Suc i) (cr1, ext1, d) = None
         | Some (cr', ext') \<Rightarrow>
             (\<exists>mx my d'. results_loop e hb n (Suc i) (cr1, ext1, d)
                = Some (Suc i + length (takeWhile ?P [Suc i..<n]),
                        cr'\<lparr> matrix := (mx, my) \<rparr>, ext', d'))"
        by (intro Suc.hyps(1)) simp_all
      have loop: "results_loop e hb n i (cr, ext, d) = results_loop e hb n (Suc i) (cr1, ext1, d)"
        using lt body Some st1 by simp
      have rows: "draw_rows e hb (takeWhile ?P [i..<n]) (cr, ext)
          = draw_rows e hb (takeWhile ?P [Suc i..<n]) (cr1, ext1)"
        using True upt Some st1 by simp
      have len: "i + length (takeWhile ?P [i..<n]) = Suc i + length (takeWhile ?P [Suc i..<n])"
        using True upt by simp
      show ?thesis unfolding loop rows len by (rule IH)
    qed
  qed
qed

lemma takeWhile_upt_prefix:
  "takeWhile P [i..<n] = [i..<i + length (takeWhile P [i..<n])]"
proof (induction "n - i" arbitrary: i)
  case 0
  then show ?case by simp
next
  case (Suc k)
  then have lt: "i < n" by simp
  then have upt: "[i..<n] = i # [Suc i..<n]" by (simp add: upt_conv_Cons)
  show ?case
  proof (cases "P i")
    case False
    then show ?thesis using upt by simp
  next
    case True
    define L where "L = length (takeWhile P [Suc i..<n])"
    have IH: "takeWhile P [Suc i..<n] = [Suc i..<Suc i + L]"
      unfolding L_def using Suc.hyps(2) by (intro Suc.hyps(1)) simp
    have "takeWhile P [i..<n] = i # takeWhile P [Suc i..<n]" using True upt by simp
    then have tw: "takeWhile P [i..<n] = i # [Suc i..<Suc i + L]" using IH by simp
    then have "length (takeWhile P [i..<n]) = Suc L" by simp
    moreover have "[i..<i + Suc L] = i # [Suc i..<Suc i + L]" by (subst upt_rec) simp
    ultimately show ?thesis using tw by simp
  qed
qed

lemma takeWhile_upt_exact:
  assumes "\<forall>j < k. P j" and "k \<le> n" and "k < n \<longrightarrow> \<not> P k"
  shows "takeWhile P [0..<n] = [0..<k]"
proof -
  from assms(2) obtain m where n: "n = k + m" using le_iff_add by blast
  have "[0..<n] = [0..<k] @ [k..<n]" unfolding n by (rule upt_add_eq_append) simp
  moreover have "takeWhile P [k..<n] = []"
    using assms(3) by (cases "k < n") (simp_all add: upt_conv_Cons)
  moreover have "takeWhile P ([0..<k] @ [k..<n]) = [0..<k] @ takeWhile P [k..<n]"
    using assms(1) by (intro takeWhile_append2) simp
  ultimately show ?thesis by simp
qed

lemma render_prompt_and_input_fields:
  "snd (matrix (fst (render_prompt_and_input e hb cr))) = snd (matrix cr)"
  "saved (fst (render_prompt_and_input e hb cr)) = (matrix cr, source cr) # saved cr"
  by (simp_all add: render_prompt_and_input_def Let_def case_prod_beta cairo_translate_def
      cairo_save_def)

lemma update_vertical:
  assumes mode: "num_results e = 0" "\<not> horizontal e"
    and whole: "font_height hb = real H" "H < 2 ^ 32"
    and count: "length (results e) < 2 ^ 32"
    and exact: "\<And>j. j < length (results e) \<Longrightarrow>
      round_double (row_origin e hb (snd (matrix cr)) j) = row_origin e hb (snd (matrix cr)) j
      \<and> round_double (row_origin e hb (snd (matrix cr)) j + font_height hb)
          = row_origin e hb (snd (matrix cr)) j + font_height hb"
  shows "entry_backend_harfbuzz_update e hb cr
     = map_option
         (\<lambda>(cr', ext'). (cairo_restore cr',
            e\<lparr> num_results_drawn := rows_fitting e hb (snd (matrix cr)) \<rparr>))
         (draw_rows e hb [0..<rows_fitting e hb (snd (matrix cr))]
            (render_prompt_and_input e hb cr))"
proof -
  let ?P = "\<lambda>j. j + first_result e < length (results e) \<and> row_fits e hb (snd (matrix cr)) j"
  let ?n = "length (results e)"
  let ?k = "rows_fitting e hb (snd (matrix cr))"
  obtain cr0 ext0 where pi: "render_prompt_and_input e hb cr = (cr0, ext0)"
    by (cases "render_prompt_and_input e hb cr")
  have y0: "snd (matrix cr0) = snd (matrix cr)"
    and s0: "saved cr0 = (matrix cr, source cr) # saved cr"
    using render_prompt_and_input_fields [of e hb cr] by (simp_all add: pi)
  have bound: "loop_bound e = ?n" using mode(1) count by (simp add: loop_bound_def)
  have tw: "takeWhile ?P [0..<?n] = [0..<?k]"
    unfolding rows_fitting_def by (rule takeWhile_upt_prefix [of ?P 0 ?n, unfolded add_0])
  have loop: "case draw_rows e hb [0..<?k] (cr0, ext0) of
       None \<Rightarrow> results_loop e hb ?n 0 (cr0, ext0, num_results_drawn e) = None
     | Some (cr', ext') \<Rightarrow>
         (\<exists>mx my d'. results_loop e hb ?n 0 (cr0, ext0, num_results_drawn e)
            = Some (?k, cr'\<lparr> matrix := (mx, my) \<rparr>, ext', d'))"
  proof -
    have pre: "snd (matrix cr0) = snd (matrix cr) + real 0 * (font_height hb + result_spacing e)"
      using y0 by simp
    show ?thesis
      using results_loop_vertical [OF mode whole exact le0 pre, where n = ?n and ext = ext0
          and d = "num_results_drawn e"]
      unfolding tw length_upt add_0 diff_zero .
  qed
  show ?thesis
  proof (cases "draw_rows e hb [0..<?k] (cr0, ext0)")
    case None
    with loop show ?thesis by (simp add: entry_backend_harfbuzz_update_def pi bound)
  next
    case (Some st')
    obtain cr' ext' where st': "st' = (cr', ext')" by (cases st')
    from loop Some st' obtain m d' where
      r: "results_loop e hb ?n 0 (cr0, ext0, num_results_drawn e)
          = Some (?k, cr'\<lparr> matrix := m \<rparr>, ext', d')" by auto
    have "saved cr' = (matrix cr, source cr) # saved cr"
      using draw_rows_saved_vertical [OF Some [unfolded st'] mode(2)] s0 by simp
    then have "cairo_restore (cr'\<lparr> matrix := m \<rparr>) = cairo_restore cr'"
      by (simp add: cairo_restore_def)
    then show ?thesis
      using r Some st' by (simp add: entry_backend_harfbuzz_update_def pi bound)
  qed
qed

section \<open>Rows: examples\<close>

theorem highlight_combined_extents_witness:
  "\<exists>cr'. render_highlighted
       (example_entry\<lparr> selection_highlight_color
          := \<lparr> color_r = 1, color_g = 0, color_b = 0, color_a = 1 \<rparr> \<rparr>)
       example_shaper example_canvas ''hello world''
     = Some (cr', \<lparr> x_bearing = 0, y_bearing = 0, width = 66, height = 10,
                     x_advance = 66, y_advance = 0 \<rparr>)"
proof -
  let ?e = "example_entry\<lparr> selection_highlight_color
          := \<lparr> color_r = 1, color_g = 0, color_b = 0, color_a = 1 \<rparr> \<rparr>"
  have "split_match ?e example_shaper ''hello world''
      = Some (''hello '', 6, Some ''wor'', Some ''ld'')"
    by (simp add: split_match_def example_entry_def example_shaper_def)
  from highlight_combined_extents [OF this, of example_canvas]
  obtain cr' where "render_highlighted ?e example_shaper example_canvas ''hello world''
      = Some (cr', combined_extents example_shaper ''hello '' (Some ''wor'') (Some ''ld''))"
    by blast
  moreover have "combined_extents example_shaper ''hello '' (Some ''wor'') (Some ''ld'')
      = \<lparr> x_bearing = 0, y_bearing = 0, width = 66, height = 10,
          x_advance = 66, y_advance = 0 \<rparr>"
    by (simp add: combined_extents_def compose_extents_def measured_def example_shaper_def)
  ultimately show ?thesis by simp
qed

theorem row_theme_rule_witness:
  "row_theme (example_entry\<lparr> num_results := 3 \<rparr>) 1 = example_dim_theme
   \<and> row_theme (example_entry\<lparr> num_results := 3, first_result := 1, selection := 3 \<rparr>) 0
       = example_dim_theme
   \<and> row_theme (example_entry\<lparr> num_results := 3 \<rparr>) 0 = example_box_theme
   \<and> row_theme (example_entry\<lparr> num_results := 3 \<rparr>) 2 = example_theme
   \<and> (\<exists>cr' ext'.
         loop_body (example_entry\<lparr> num_results := 3 \<rparr>) example_shaper 1
             (example_canvas, measured example_shaper ''wor'', 0)
           = Continue (cr', ext', 0)
         \<and> draw_row (example_entry\<lparr> num_results := 3 \<rparr>) example_shaper example_dim_theme 1
               (example_canvas, measured example_shaper ''wor'')
             = Some (cr', ext'))"
proof -
  let ?e = "example_entry\<lparr> num_results := 3 \<rparr>"
  let ?e' = "example_entry\<lparr> num_results := 3, first_result := 1, selection := 3 \<rparr>"
  let ?st = "(example_canvas, measured example_shaper ''wor'')"
  note rule = row_theme_rule [of ?e example_shaper 1 example_canvas
      "measured example_shaper ''wor''" 0 _ 0 ?e']
  have t1: "row_theme ?e 1 = example_dim_theme"
    using row_theme_rule [of ?e _ 1] by (simp add: example_entry_def)
  have "1 \<noteq> selection ?e \<and> 0 \<noteq> selection ?e' \<and> 1 + first_result ?e = 0 + first_result ?e'
      \<and> default_result_theme ?e' = default_result_theme ?e
      \<and> alternate_result_theme ?e' = alternate_result_theme ?e"
    by (simp add: example_entry_def)
  then have "row_theme ?e' 0 = row_theme ?e 1" using rule by blast
  then have t2: "row_theme ?e' 0 = example_dim_theme" using t1 by simp
  have t3: "row_theme ?e 0 = example_box_theme"
    using row_theme_rule [of ?e _ 0] by (simp add: example_entry_def)
  have t4: "row_theme ?e 2 = example_theme"
    using row_theme_rule [of ?e _ 2] by (simp add: example_entry_def)
  have "\<not> highlighted ?e 1" by (simp add: highlighted_def example_entry_def)
  then have "draw_row ?e example_shaper (row_theme ?e 1) 1 ?st \<noteq> None"
    by (intro draw_row_returns) simp
  then obtain cr' ext' where d: "draw_row ?e example_shaper (row_theme ?e 1) 1 ?st = Some (cr', ext')"
    by auto
  have "loop_body ?e example_shaper 1 (example_canvas, measured example_shaper ''wor'', 0)
      = (case draw_row ?e example_shaper (row_theme ?e 1) 1 ?st of
           None \<Rightarrow> Fault | Some (cr', ext') \<Rightarrow> Continue (cr', ext', 0))"
    by (rule loop_body_fixed) (simp_all add: example_entry_def)
  then have b: "loop_body ?e example_shaper 1 (example_canvas, measured example_shaper ''wor'', 0)
      = Continue (cr', ext', 0)" using d by simp
  with rule d t1 have "draw_row ?e example_shaper example_dim_theme 1 ?st = Some (cr', ext')"
    by simp
  with b t1 t2 t3 t4 show ?thesis by blast
qed


section \<open>Rows drawn past the clip boundary\<close>

lemma example_rows_fitting_tight:
  "rows_fitting (example_entry\<lparr> clip_height := 15, selection_highlight_color
          := \<lparr> color_r = 1, color_g = 0, color_b = 0, color_a = 1 \<rparr> \<rparr>) example_shaper 0 = 1"
  by (simp add: rows_fitting_def row_fits_def row_origin_def highlighted_def example_entry_def
      example_shaper_def upt_rec)

lemma results_loop_all_pass:
  assumes mode: "num_results e = 0" "\<not> horizontal e"
    and plain: "color_a (selection_highlight_color e) = 0"
    and cand: "n + first_result e \<le> length (results e)"
    and step: "0 \<le> font_height hb + result_spacing e"
  shows "i \<le> n \<Longrightarrow>
    snd (matrix cr) + real (n - i) * (font_height hb + result_spacing e)
      + real (unat (double_to_uint32 (font_height hb))) \<le> real (unat (clip_y e + clip_height e))
    \<Longrightarrow> \<exists>cr' ext'. results_loop e hb n i (cr, ext, d) = Some (n, cr', ext', d)"
proof (induction "n - i" arbitrary: i cr ext)
  case 0
  then show ?case by simp
next
  case (Suc k)
  let ?c = "font_height hb + result_spacing e"
  let ?B = "real (unat (clip_y e + clip_height e))"
  let ?cr = "advance_row e hb cr ext"
  from Suc have lt: "i < n" by simp
  have nh: "\<not> highlighted e i" using plain by (simp add: highlighted_def)
  have o: "snd (matrix ?cr) = snd (matrix cr) + ?c"
    using mode(2) by (simp add: advance_row_def cairo_translate_def)
  have "real (n - i) = real (n - Suc i) + 1" using lt by (simp add: of_nat_diff)
  then have split: "real (n - i) * ?c = real (n - Suc i) * ?c + ?c" by (simp add: algebra_simps)
  have "0 \<le> real (n - Suc i) * ?c" using step by simp
  with Suc.prems(2) split have far: "snd (matrix ?cr) + real (unat (double_to_uint32 (font_height hb))) \<le> ?B"
    by (simp add: o)
  then have "snd (matrix ?cr) \<le> ?B"
    using of_nat_0_le_iff [of "unat (double_to_uint32 (font_height hb))", where ?'a = real]
    by linarith
  then have "snd (matrix ?cr) + real (unat (0 :: 32 word)) \<le> ?B" by simp
  then have "round_double (snd (matrix ?cr) + real (unat (0 :: 32 word))) \<le> ?B"
    by (rule round_double_bracket(2) [OF round_double_unat])
  moreover from far
  have "round_double (snd (matrix ?cr) + real (unat (double_to_uint32 (font_height hb)))) \<le> ?B"
    by (rule round_double_bracket(2) [OF round_double_unat])
  ultimately have pass: "\<not> size_overflows e ?cr 0 0"
    "\<not> size_overflows e ?cr 0 (double_to_uint32 (font_height hb))"
    using mode(2) unfolding size_overflows_def by simp_all
  have "i + first_result e < length (results e)" using lt cand by simp
  then have body: "loop_body e hb i (cr, ext, d)
      = (case draw_row e hb (row_theme e i) i (cr, ext) of
           None \<Rightarrow> Fault | Some (cr', ext') \<Rightarrow> Continue (cr', ext', d))"
    using mode pass by (simp add: loop_body_vertical)
  have "draw_row e hb (row_theme e i) i (cr, ext) \<noteq> None"
    using nh by (intro draw_row_returns) simp
  then obtain cr1 ext1 where d1: "draw_row e hb (row_theme e i) i (cr, ext) = Some (cr1, ext1)"
    by auto
  have "snd (matrix cr1) = snd (matrix cr) + ?c"
    using draw_row_fields_vertical(1) [OF d1 mode(2)] by simp
  then have "snd (matrix cr1) + real (n - Suc i) * ?c
      + real (unat (double_to_uint32 (font_height hb))) \<le> ?B"
    using Suc.prems(2) split by simp
  moreover have "k = n - Suc i" and "Suc i \<le> n" using Suc.hyps(2) lt by simp_all
  ultimately obtain cr' ext' where
    "results_loop e hb n (Suc i) (cr1, ext1, d) = Some (n, cr', ext', d)"
    using Suc.hyps(1) [of "Suc i" cr1 ext1] by blast
  then show ?case using lt body d1 by simp
qed

lemma fractional_height_rows:
  "\<exists>cr'. entry_backend_harfbuzz_update (example_entry\<lparr> clip_height := 64 \<rparr>)
       (example_shaper\<lparr> font_height := 43 / 4 \<rparr>) example_canvas
     = Some (cr', example_entry\<lparr> clip_height := 64, num_results_drawn := 5 \<rparr>)"
proof -
  let ?e = "example_entry\<lparr> clip_height := 64 \<rparr>"
  let ?hb = "example_shaper\<lparr> font_height := 43 / 4 \<rparr>"
  obtain cr0 ext0 where pi: "render_prompt_and_input ?e ?hb example_canvas = (cr0, ext0)"
    by (cases "render_prompt_and_input ?e ?hb example_canvas")
  have "snd (matrix cr0) = snd (matrix example_canvas)"
    using render_prompt_and_input_fields(1) [of ?e ?hb example_canvas] by (simp add: pi)
  then have y0: "snd (matrix cr0) = 0" by (simp add: example_canvas_def)
  have t: "(unsigned (double_to_uint32 (43 / 4)) :: real) = 10"
    by (simp add: double_to_uint32_def)
  have "\<exists>cr' ext'. results_loop ?e ?hb 5 0 (cr0, ext0, num_results_drawn ?e)
      = Some (5, cr', ext', num_results_drawn ?e)"
    by (rule results_loop_all_pass)
       (simp_all add: y0 example_entry_def example_shaper_def t)
  moreover have "loop_bound ?e = 5" by (simp add: loop_bound_def example_entry_def)
  ultimately show ?thesis
    by (auto simp: entry_backend_harfbuzz_update_def pi)
qed

text \<open>
  C3. In auto-fit mode with a vertical list every candidate row is to be tested with the
  font height before it is drawn, and the first one that overflows is not drawn. The code
  draws rows that overflow, in two cases.

  The highlighted selection: with a clip boundary at 15, a font height of 10 and the first
  row selected and highlighted, the first candidate has its origin at 10 and its far edge
  at 20, and the test with the font height says it overflows. The loop makes that test on
  the plain path only; it draws this row (the match in the highlight colour among its
  glyphs) and \<^verbatim>\<open>update\<close> records one row drawn.

  A font height with a fraction, which \<^verbatim>\<open>size_overflows\<close> receives as a \<^verbatim>\<open>uint32_t\<close>:
  with a height of 10.75 and a clip boundary at 64, the far edge of the fourth row is at
  53.75 and that of the fifth at 64.5, so the clip fits exactly four rows; five are drawn.
\<close>

theorem auto_fit_draws_overflowing_rows:
  "size_overflows
     (example_entry\<lparr> clip_height := 15, selection_highlight_color
        := \<lparr> color_r = 1, color_g = 0, color_b = 0, color_a = 1 \<rparr> \<rparr>)
     (advance_row
        (example_entry\<lparr> clip_height := 15, selection_highlight_color
           := \<lparr> color_r = 1, color_g = 0, color_b = 0, color_a = 1 \<rparr> \<rparr>)
        example_shaper
        (fst (render_prompt_and_input
                (example_entry\<lparr> clip_height := 15, selection_highlight_color
                   := \<lparr> color_r = 1, color_g = 0, color_b = 0, color_a = 1 \<rparr> \<rparr>)
                example_shaper example_canvas))
        (snd (render_prompt_and_input
                (example_entry\<lparr> clip_height := 15, selection_highlight_color
                   := \<lparr> color_r = 1, color_g = 0, color_b = 0, color_a = 1 \<rparr> \<rparr>)
                example_shaper example_canvas)))
     0 (double_to_uint32 (font_height example_shaper))
   \<and> (\<exists>cr'. entry_backend_harfbuzz_update
         (example_entry\<lparr> clip_height := 15, selection_highlight_color
            := \<lparr> color_r = 1, color_g = 0, color_b = 0, color_a = 1 \<rparr> \<rparr>)
         example_shaper example_canvas
       = Some (cr', example_entry\<lparr> clip_height := 15, selection_highlight_color
            := \<lparr> color_r = 1, color_g = 0, color_b = 0, color_a = 1 \<rparr>,
            num_results_drawn := 1 \<rparr>)
       \<and> Show_Glyphs ''wor'' \<lparr> color_r = 1, color_g = 0, color_b = 0, color_a = 1 \<rparr> (70, 18)
           \<in> set (target cr'))
   \<and> row_origin (example_entry\<lparr> clip_height := 64 \<rparr>)
         (example_shaper\<lparr> font_height := 43 / 4 \<rparr>) 0 3
       + font_height (example_shaper\<lparr> font_height := 43 / 4 \<rparr>)
       \<le> clip_boundary (example_entry\<lparr> clip_height := 64 \<rparr>)
   \<and> clip_boundary (example_entry\<lparr> clip_height := 64 \<rparr>)
       < row_origin (example_entry\<lparr> clip_height := 64 \<rparr>)
           (example_shaper\<lparr> font_height := 43 / 4 \<rparr>) 0 4
         + font_height (example_shaper\<lparr> font_height := 43 / 4 \<rparr>)
   \<and> (\<exists>cr'. entry_backend_harfbuzz_update (example_entry\<lparr> clip_height := 64 \<rparr>)
         (example_shaper\<lparr> font_height := 43 / 4 \<rparr>) example_canvas
       = Some (cr', example_entry\<lparr> clip_height := 64, num_results_drawn := 5 \<rparr>))"
proof -
  let ?e = "example_entry\<lparr> clip_height := 15, selection_highlight_color
        := \<lparr> color_r = 1, color_g = 0, color_b = 0, color_a = 1 \<rparr> \<rparr>"
  let ?pi = "render_prompt_and_input ?e example_shaper example_canvas"
  have pi: "?pi = (\<lparr> matrix = (34, 0), source = foreground_color example_theme,
        saved = [((0, 0), source example_canvas)],
        target = [Show_Glyphs ''run: '' (foreground_color example_theme) (0, 8),
                  Show_Glyphs ''wor'' (foreground_color example_theme) (34, 8)],
        groups = [] \<rparr>, measured example_shaper ''wor'')"
    by (simp add: render_prompt_and_input_def render_text_themed_def render_text_eq Let_def
        input_text_def example_entry_def example_shaper_def example_canvas_def example_theme_def
        cairo_save_def cairo_translate_def cairo_set_source_rgba_def emit_def measured_def)
  have over: "size_overflows ?e (advance_row ?e example_shaper (fst ?pi) (snd ?pi)) 0
      (double_to_uint32 (font_height example_shaper))"
    unfolding pi
    by (simp add: size_overflows_def advance_row_def cairo_translate_def double_to_uint32_def
        example_entry_def example_shaper_def round_double_numeral)
  have a: "num_results ?e = 0" "\<not> horizontal ?e"
    "font_height example_shaper = real 10" "(10::nat) < 2 ^ 32"
    "length (results ?e) < 2 ^ 32"
    by (simp_all add: example_entry_def example_shaper_def)
  have ex: "round_double (row_origin ?e example_shaper (snd (matrix example_canvas)) j)
        = row_origin ?e example_shaper (snd (matrix example_canvas)) j
      \<and> round_double (row_origin ?e example_shaper (snd (matrix example_canvas)) j
            + font_height example_shaper)
        = row_origin ?e example_shaper (snd (matrix example_canvas)) j
            + font_height example_shaper"
    if "j < length (results ?e)" for j
  proof -
    have j: "j < 5" using that by (simp add: example_entry_def)
    have o: "row_origin ?e example_shaper (snd (matrix example_canvas)) j = real (10 * (j + 1))"
      by (simp add: row_origin_def example_entry_def example_shaper_def example_canvas_def)
    have h: "real (10 * (j + 1)) + font_height example_shaper = real (10 * (j + 1) + 10)"
      by (simp add: example_shaper_def)
    have "10 * (j + 1) < 2 ^ 53" and "10 * (j + 1) + 10 < 2 ^ 53" using j by simp_all
    then show ?thesis unfolding o h by (simp only: round_double_of_nat)
  qed
  have k: "rows_fitting ?e example_shaper (snd (matrix example_canvas)) = 1"
    using example_rows_fitting_tight by (simp add: example_canvas_def)
  have sm: "split_match ?e example_shaper ''hello world''
      = Some (''hello '', 6, Some ''wor'', Some ''ld'')"
    by (simp add: split_match_def example_entry_def example_shaper_def)
  have row: "draw_rows ?e example_shaper [0..<1] ?pi
      = render_highlighted ?e example_shaper
          (advance_row ?e example_shaper (fst ?pi) (snd ?pi)) ''hello world''"
  proof -
    have h: "highlighted ?e 0" by (simp add: highlighted_def example_entry_def)
    have "draw_row ?e example_shaper (row_theme ?e 0) 0 (fst ?pi, snd ?pi)
        = render_highlighted ?e example_shaper (advance_row ?e example_shaper (fst ?pi) (snd ?pi))
            (results ?e ! (0 + first_result ?e))"
      using h by (rule draw_row_highlighted)
    then show ?thesis by (simp add: example_entry_def split: option.splits)
  qed
  have "\<exists>cr1 ext1. render_highlighted ?e example_shaper
          (advance_row ?e example_shaper (fst ?pi) (snd ?pi)) ''hello world'' = Some (cr1, ext1)
      \<and> Show_Glyphs ''wor'' \<lparr> color_r = 1, color_g = 0, color_b = 0, color_a = 1 \<rparr> (70, 18)
           \<in> set (target cr1)"
    unfolding pi render_highlighted_eq sm
    by (simp add: highlight_pass_def render_text_eq background_box_eq
        Let_def advance_row_def cairo_save_def cairo_restore_def cairo_translate_def
        cairo_set_source_rgba_def emit_def measured_def example_entry_def example_shaper_def
        example_box_theme_def example_theme_def)
  then obtain cr1 ext1 where
    r: "draw_rows ?e example_shaper [0..<1] ?pi = Some (cr1, ext1)"
    and g: "Show_Glyphs ''wor'' \<lparr> color_r = 1, color_g = 0, color_b = 0, color_a = 1 \<rparr> (70, 18)
           \<in> set (target cr1)"
    unfolding row by blast
  have "target (cairo_restore cr1) = target cr1"
    by (simp add: cairo_restore_def split: list.splits)
  moreover have "entry_backend_harfbuzz_update ?e example_shaper example_canvas
      = Some (cairo_restore cr1, ?e\<lparr> num_results_drawn := 1 \<rparr>)"
    using update_vertical [OF a ex] r by (simp add: k)
  ultimately have first: "\<exists>cr'. entry_backend_harfbuzz_update ?e example_shaper example_canvas
        = Some (cr', ?e\<lparr> num_results_drawn := 1 \<rparr>)
      \<and> Show_Glyphs ''wor'' \<lparr> color_r = 1, color_g = 0, color_b = 0, color_a = 1 \<rparr> (70, 18)
           \<in> set (target cr')"
    using g by simp
  have edges: "row_origin (example_entry\<lparr> clip_height := 64 \<rparr>)
         (example_shaper\<lparr> font_height := 43 / 4 \<rparr>) 0 3
       + font_height (example_shaper\<lparr> font_height := 43 / 4 \<rparr>)
       \<le> clip_boundary (example_entry\<lparr> clip_height := 64 \<rparr>)"
    "clip_boundary (example_entry\<lparr> clip_height := 64 \<rparr>)
       < row_origin (example_entry\<lparr> clip_height := 64 \<rparr>)
           (example_shaper\<lparr> font_height := 43 / 4 \<rparr>) 0 4
         + font_height (example_shaper\<lparr> font_height := 43 / 4 \<rparr>)"
    by (simp_all add: row_origin_def clip_boundary_def example_entry_def example_shaper_def)
  from over first edges fractional_height_rows show ?thesis by simp
qed

end
